theory Spec2Isabelle
  imports Main
begin

section \<open>Session caches of package dsess\<close>

text \<open>
  A shallow embedding of the two caches of \<^verbatim>\<open>branch.go\<close> (package \<^verbatim>\<open>dsess\<close>):
  \<^verbatim>\<open>SessionCache\<close> and \<^verbatim>\<open>DatabaseCache\<close>. Every method takes the receiver and returns
  the updated receiver; a method that lowers a name takes the Unicode part of
  \<^verbatim>\<open>strings.ToLower\<close> as its first argument \<open>U\<close> (see \<open>ToLower\<close> below). The read-write mutex only serialises the methods; each definition
  below is one critical section.
\<close>

subsection \<open>Go maps, strings and lookups\<close>

text \<open>
  A map-typed field is \<^verbatim>\<open>nil\<close> (\<open>None\<close>) or a map (\<open>Some m\<close>). Reading a \<^verbatim>\<open>nil\<close> map
  finds nothing and its \<^verbatim>\<open>len\<close> is 0; writing to it panics. Go maps are finite, and
  \<^verbatim>\<open>len\<close> is the number of keys.
\<close>

type_synonym ('k, 'v) gomap = "('k \<rightharpoonup> 'v) option"

definition len :: "('k \<rightharpoonup> 'v) \<Rightarrow> nat" where
  "len m = card (dom m)"

text \<open>
  A two-valued lookup \<^verbatim>\<open>v, ok := m[k]\<close> and the pairs \<^verbatim>\<open>(value, bool)\<close> the getters return
  are values of type \<open>'v option\<close>: \<open>Some v\<close> is \<^verbatim>\<open>(v, true)\<close>, and \<open>None\<close> is
  \<^verbatim>\<open>(zero value, false)\<close>; on every path of the getters a \<^verbatim>\<open>false\<close> comes with the
  zero value of the result type.
\<close>

text \<open>
  \<^verbatim>\<open>strings.ToLower\<close> belongs to the Go library, not to the repository. On a string
  whose bytes are all below \<^verbatim>\<open>utf8.RuneSelf\<close> (128) it moves the letters \<^verbatim>\<open>A\<close> to
  \<^verbatim>\<open>Z\<close> to \<^verbatim>\<open>a\<close> to \<^verbatim>\<open>z\<close> and keeps every other byte. On any other string it
  returns \<^verbatim>\<open>strings.Map(unicode.ToLower, s)\<close>: the string is decoded as UTF-8, each
  code point is lowered by the Unicode case tables of the Go release, and the result is
  encoded again. Those tables are not in the repository, so this second function is a
  parameter, of type \<open>unicodeLower\<close>, of \<open>ToLower\<close> and of every method that calls it.
  Every theorem below holds for every value of the parameter, so for the function of the
  Go library too.
\<close>

type_synonym unicodeLower = "string \<Rightarrow> string"

definition isASCII :: "char \<Rightarrow> bool" where
  "isASCII b = ((of_char b :: nat) < 128)"

definition toLowerByte :: "char \<Rightarrow> char" where
  "toLowerByte b =
     (let n = (of_char b :: nat) in if 65 \<le> n \<and> n \<le> 90 then char_of (n + 32) else b)"

definition ToLower :: "unicodeLower \<Rightarrow> string \<Rightarrow> string" where
  "ToLower U s = (if list_all isASCII s then map toLowerByte s else U s)"

definition maxCachedKeys :: nat where
  "maxCachedKeys = 64"

text \<open>
  The two steps every caching method starts with.
  \<^verbatim>\<open>if m == nil { m = make(...) }\<close> is \<open>makeIfNil\<close>;
  \<^verbatim>\<open>if len(m) > maxCachedKeys { for k := range m { delete(m, k) } }\<close> is \<open>flushIfOver\<close>:
  the loop deletes every key, and the map stays allocated.
\<close>

definition makeIfNil :: "('k, 'v) gomap \<Rightarrow> ('k \<rightharpoonup> 'v)" where
  "makeIfNil m = (case m of None \<Rightarrow> Map.empty | Some f \<Rightarrow> f)"

definition flushIfOver :: "('k \<rightharpoonup> 'v) \<Rightarrow> ('k \<rightharpoonup> 'v)" where
  "flushIfOver m = (if len m > maxCachedKeys then Map.empty else m)"

text \<open>
  \<^verbatim>\<open>inner, ok := m[key]; if !ok { inner = make(...); m[key] = inner }\<close> yields the
  inner map that the method then writes to.
\<close>

definition innerOrNew :: "('k \<rightharpoonup> ('n \<rightharpoonup> 'v)) \<Rightarrow> 'k \<Rightarrow> ('n \<rightharpoonup> 'v)" where
  "innerOrNew m key = (case m key of None \<Rightarrow> Map.empty | Some inner \<Rightarrow> inner)"

subsection \<open>Data\<close>

text \<open>\<^verbatim>\<open>doltdb.DataCacheKey\<close> wraps a root hash; \<open>'h\<close> is the type of hashes.\<close>

datatype 'h DataCacheKey = DataCacheKey (Hash: 'h)

text \<open>
  \<^verbatim>\<open>sql.ViewDefinition\<close>: the cache reads the field \<^verbatim>\<open>Name\<close> only; the other fields
  are the payload.
\<close>

record ViewDefinition =
  Name :: string
  TextDefinition :: string
  CreateViewStatement :: string

text \<open>
  \<^verbatim>\<open>SessionCache\<close>, with \<open>'i\<close> for \<^verbatim>\<open>sql.Index\<close> and \<open>'t\<close> for \<^verbatim>\<open>sql.Table\<close>.
\<close>

record ('h, 'i, 't) SessionCache =
  indexes :: "('h DataCacheKey, string \<rightharpoonup> 'i list) gomap"
  tables :: "('h DataCacheKey, string \<rightharpoonup> 't) gomap"
  views :: "('h DataCacheKey, string \<rightharpoonup> ViewDefinition) gomap"

definition newSessionCache :: "('h, 'i, 't) SessionCache" where
  "newSessionCache = \<lparr>indexes = None, tables = None, views = None\<rparr>"

subsection \<open>SessionCache methods\<close>

definition CacheTableIndexes ::
  "unicodeLower \<Rightarrow> ('h, 'i, 't) SessionCache \<Rightarrow> 'h DataCacheKey \<Rightarrow> string \<Rightarrow> 'i list \<Rightarrow> ('h, 'i, 't) SessionCache"
where
  "CacheTableIndexes U c key table idxs =
     (let table = ToLower U table;
          m = flushIfOver (makeIfNil (indexes c));
          tableIndexes = innerOrNew m key
      in c\<lparr>indexes := Some (m(key \<mapsto> tableIndexes(table \<mapsto> idxs)))\<rparr>)"

definition GetTableIndexesCache ::
  "unicodeLower \<Rightarrow> ('h, 'i, 't) SessionCache \<Rightarrow> 'h DataCacheKey \<Rightarrow> string \<Rightarrow> 'i list option"
where
  "GetTableIndexesCache U c key table =
     (case indexes c of
        None \<Rightarrow> None
      | Some m \<Rightarrow>
          (case m key of
             None \<Rightarrow> None
           | Some tableIndexes \<Rightarrow> tableIndexes (ToLower U table)))"

definition CacheTable ::
  "unicodeLower \<Rightarrow> ('h, 'i, 't) SessionCache \<Rightarrow> 'h DataCacheKey \<Rightarrow> string \<Rightarrow> 't \<Rightarrow> ('h, 'i, 't) SessionCache"
where
  "CacheTable U c key tableName table =
     (let tableName = ToLower U tableName;
          m = flushIfOver (makeIfNil (tables c));
          tablesForKey = innerOrNew m key
      in c\<lparr>tables := Some (m(key \<mapsto> tablesForKey(tableName \<mapsto> table)))\<rparr>)"

text \<open>
  \<^verbatim>\<open>ClearTableCache\<close> deletes every key of \<^verbatim>\<open>c.tables\<close>; ranging over a \<^verbatim>\<open>nil\<close> map
  does nothing and leaves it \<^verbatim>\<open>nil\<close>.
\<close>

definition ClearTableCache :: "('h, 'i, 't) SessionCache \<Rightarrow> ('h, 'i, 't) SessionCache" where
  "ClearTableCache c =
     (case tables c of None \<Rightarrow> c | Some m \<Rightarrow> c\<lparr>tables := Some Map.empty\<rparr>)"

definition GetCachedTable ::
  "unicodeLower \<Rightarrow> ('h, 'i, 't) SessionCache \<Rightarrow> 'h DataCacheKey \<Rightarrow> string \<Rightarrow> 't option"
where
  "GetCachedTable U c key tableName =
     (let tableName = ToLower U tableName in
      case tables c of
        None \<Rightarrow> None
      | Some m \<Rightarrow>
          (case m key of
             None \<Rightarrow> None
           | Some tablesForKey \<Rightarrow> tablesForKey tableName))"

text \<open>The loop of \<^verbatim>\<open>CacheViews\<close> over the slice, first element first.\<close>

primrec putViews ::
  "unicodeLower \<Rightarrow> (string \<rightharpoonup> ViewDefinition) \<Rightarrow> ViewDefinition list \<Rightarrow> (string \<rightharpoonup> ViewDefinition)"
where
  "putViews U viewsForKey [] = viewsForKey"
| "putViews U viewsForKey (v # vs) = putViews U (viewsForKey(ToLower U (Name v) \<mapsto> v)) vs"

definition CacheViews ::
  "unicodeLower \<Rightarrow> ('h, 'i, 't) SessionCache \<Rightarrow> 'h DataCacheKey \<Rightarrow> ViewDefinition list \<Rightarrow> ('h, 'i, 't) SessionCache"
where
  "CacheViews U c key vs =
     (let m = flushIfOver (makeIfNil (views c));
          viewsForKey = innerOrNew m key
      in c\<lparr>views := Some (m(key \<mapsto> putViews U viewsForKey vs))\<rparr>)"

definition ViewsCached :: "('h, 'i, 't) SessionCache \<Rightarrow> 'h DataCacheKey \<Rightarrow> bool" where
  "ViewsCached c key =
     (case views c of
        None \<Rightarrow> False
      | Some m \<Rightarrow> (case m key of None \<Rightarrow> False | Some viewsForKey \<Rightarrow> True))"

definition GetCachedViewDefinition ::
  "unicodeLower \<Rightarrow> ('h, 'i, 't) SessionCache \<Rightarrow> 'h DataCacheKey \<Rightarrow> string \<Rightarrow> ViewDefinition option"
where
  "GetCachedViewDefinition U c key viewName =
     (let viewName = ToLower U viewName in
      case views c of
        None \<Rightarrow> None
      | Some m \<Rightarrow>
          (case m key of
             None \<Rightarrow> None
           | Some viewsForKey \<Rightarrow> viewsForKey viewName))"

subsection \<open>DatabaseCache\<close>

text \<open>
  \<^verbatim>\<open>SqlDatabase\<close> is an interface; the cache calls its methods
  \<^verbatim>\<open>RevisionQualifiedName()\<close> and \<^verbatim>\<open>RequestedName()\<close> only. A database handle is a
  record of what the two methods return, extended by the rest of the handle.
\<close>

record SqlDatabase =
  RevisionQualifiedName :: string
  RequestedName :: string

record revisionDbCacheKey =
  dbName :: string
  requestedName :: string

datatype 'h sessionVarCacheKey = sessionVarCacheKey (root: "'h DataCacheKey") (head: string)

text \<open>
  \<^verbatim>\<open>branchState\<close> and \<^verbatim>\<open>DoltTransaction\<close> are declared elsewhere in the package. The
  cache reads \<^verbatim>\<open>branchState.dbState.dbName\<close> and \<^verbatim>\<open>branchState.head\<close>, and calls
  \<^verbatim>\<open>transaction.GetInitialRoot(dbName)\<close>, which returns a hash and whether the
  transaction has an initial root for that database: a transaction is the partial map
  that this method computes.
\<close>

record dbState =
  dbName :: string

record branchState =
  dbState :: dbState
  head :: string

record 'h DoltTransaction =
  GetInitialRoot :: "string \<rightharpoonup> 'h"

text \<open>
  \<^verbatim>\<open>DatabaseCache\<close>, with \<open>'d\<close> for the rest of a database handle and \<open>'s\<close> for
  \<^verbatim>\<open>InitialDbState\<close>.
\<close>

record ('h, 'd, 's) DatabaseCache =
  revisionDbs :: "(revisionDbCacheKey, 'd SqlDatabase_scheme) gomap"
  initialDbStates :: "('h DataCacheKey, string \<rightharpoonup> 's) gomap"
  sessionVars :: "(string, 'h sessionVarCacheKey) gomap"

definition newDatabaseCache :: "('h, 'd, 's) DatabaseCache" where
  "newDatabaseCache =
     \<lparr>revisionDbs = None, initialDbStates = None, sessionVars = Some Map.empty\<rparr>"

definition GetCachedRevisionDb ::
  "('h, 'd, 's) DatabaseCache \<Rightarrow> string \<Rightarrow> string \<Rightarrow> 'd SqlDatabase_scheme option"
where
  "GetCachedRevisionDb c revisionDbName requestedName' =
     (case revisionDbs c of
        None \<Rightarrow> None
      | Some m \<Rightarrow> m \<lparr>revisionDbCacheKey.dbName = revisionDbName, requestedName = requestedName'\<rparr>)"

definition CacheRevisionDb ::
  "unicodeLower \<Rightarrow> ('h, 'd, 's) DatabaseCache \<Rightarrow> 'd SqlDatabase_scheme \<Rightarrow> ('h, 'd, 's) DatabaseCache"
where
  "CacheRevisionDb U c database =
     (let m = flushIfOver (makeIfNil (revisionDbs c))
      in c\<lparr>revisionDbs :=
            Some (m(\<lparr>revisionDbCacheKey.dbName = ToLower U (RevisionQualifiedName database),
                     requestedName = RequestedName database\<rparr> \<mapsto> database))\<rparr>)"

definition GetCachedInitialDbState ::
  "('h, 'd, 's) DatabaseCache \<Rightarrow> 'h DataCacheKey \<Rightarrow> string \<Rightarrow> 's option"
where
  "GetCachedInitialDbState c key revisionDbName =
     (case initialDbStates c of
        None \<Rightarrow> None
      | Some m \<Rightarrow>
          (case m key of
             None \<Rightarrow> None
           | Some dbsForKey \<Rightarrow> dbsForKey revisionDbName))"

definition CacheInitialDbState ::
  "('h, 'd, 's) DatabaseCache \<Rightarrow> 'h DataCacheKey \<Rightarrow> string \<Rightarrow> 's \<Rightarrow> ('h, 'd, 's) DatabaseCache"
where
  "CacheInitialDbState c key revisionDbName state =
     (let m = flushIfOver (makeIfNil (initialDbStates c));
          dbsForKey = innerOrNew m key
      in c\<lparr>initialDbStates := Some (m(key \<mapsto> dbsForKey(revisionDbName \<mapsto> state)))\<rparr>)"

text \<open>
  \<^verbatim>\<open>CacheSessionVars\<close> reads \<^verbatim>\<open>c.sessionVars\<close> first (a \<^verbatim>\<open>nil\<close> map has no entry),
  returns \<^verbatim>\<open>true\<close> when the transaction has no root, and otherwise assigns to
  \<^verbatim>\<open>c.sessionVars[dbBaseName]\<close>, which panics on a \<^verbatim>\<open>nil\<close> map: the method never
  allocates the map, \<^verbatim>\<open>newDatabaseCache\<close> and \<^verbatim>\<open>Clear\<close> do. The branch state and the
  transaction are passed by pointer; the model takes the values pointed to.
\<close>

datatype error = AssignmentToNilMap

definition CacheSessionVars ::
  "('h, 'd, 's) DatabaseCache \<Rightarrow> branchState \<Rightarrow> 'h DoltTransaction
     \<Rightarrow> error + (('h, 'd, 's) DatabaseCache \<times> bool)"
where
  "CacheSessionVars c branchState transaction =
     (let dbBaseName = dbState.dbName (dbState branchState);
          existing = (case sessionVars c of None \<Rightarrow> None | Some m \<Rightarrow> m dbBaseName)
      in case GetInitialRoot transaction dbBaseName of
           None \<Rightarrow> Inr (c, True)
         | Some root' \<Rightarrow>
             (let newKey = sessionVarCacheKey (DataCacheKey root') (branchState.head branchState)
              in case sessionVars c of
                   None \<Rightarrow> Inl AssignmentToNilMap
                 | Some m \<Rightarrow>
                     Inr (c\<lparr>sessionVars := Some (m(dbBaseName \<mapsto> newKey))\<rparr>,
                          (case existing of
                             None \<Rightarrow> True
                           | Some existingKey \<Rightarrow> existingKey \<noteq> newKey))))"

definition Clear :: "('h, 'd, 's) DatabaseCache \<Rightarrow> ('h, 'd, 's) DatabaseCache" where
  "Clear c =
     c\<lparr>sessionVars := Some Map.empty,
       revisionDbs := Some Map.empty,
       initialDbStates := Some Map.empty\<rparr>"

subsection \<open>Sequences of calls\<close>

text \<open>
  The methods that change a \<^verbatim>\<open>SessionCache\<close>, as values, and a cache after a sequence of
  calls, first call first. The getters change nothing.
\<close>

datatype ('h, 'i, 't) sessionCall =
    CallCacheTableIndexes "'h DataCacheKey" string "'i list"
  | CallCacheTable "'h DataCacheKey" string 't
  | CallClearTableCache
  | CallCacheViews "'h DataCacheKey" "ViewDefinition list"

fun sessionStep ::
  "unicodeLower \<Rightarrow> ('h, 'i, 't) SessionCache \<Rightarrow> ('h, 'i, 't) sessionCall \<Rightarrow> ('h, 'i, 't) SessionCache"
where
  "sessionStep U c (CallCacheTableIndexes key table idxs) = CacheTableIndexes U c key table idxs"
| "sessionStep U c (CallCacheTable key tableName table) = CacheTable U c key tableName table"
| "sessionStep U c CallClearTableCache = ClearTableCache c"
| "sessionStep U c (CallCacheViews key vs) = CacheViews U c key vs"

primrec sessionRun ::
  "unicodeLower \<Rightarrow> ('h, 'i, 't) SessionCache \<Rightarrow> ('h, 'i, 't) sessionCall list \<Rightarrow> ('h, 'i, 't) SessionCache"
where
  "sessionRun U c [] = c"
| "sessionRun U c (call # calls) = sessionRun U (sessionStep U c call) calls"

text \<open>
  The same for a \<^verbatim>\<open>DatabaseCache\<close>; a panic ends the run.
\<close>

datatype ('h, 'd, 's) databaseCall =
    CallCacheRevisionDb "'d SqlDatabase_scheme"
  | CallCacheInitialDbState "'h DataCacheKey" string 's
  | CallCacheSessionVars branchState "'h DoltTransaction"
  | CallClear

fun databaseStep ::
  "unicodeLower \<Rightarrow> ('h, 'd, 's) DatabaseCache \<Rightarrow> ('h, 'd, 's) databaseCall \<Rightarrow> error + ('h, 'd, 's) DatabaseCache"
where
  "databaseStep U c (CallCacheRevisionDb database) = Inr (CacheRevisionDb U c database)"
| "databaseStep U c (CallCacheInitialDbState key revisionDbName state) =
     Inr (CacheInitialDbState c key revisionDbName state)"
| "databaseStep U c (CallCacheSessionVars bs tx) =
     (case CacheSessionVars c bs tx of Inl e \<Rightarrow> Inl e | Inr (c', updated) \<Rightarrow> Inr c')"
| "databaseStep U c CallClear = Inr (Clear c)"

primrec databaseRun ::
  "unicodeLower \<Rightarrow> ('h, 'd, 's) DatabaseCache \<Rightarrow> ('h, 'd, 's) databaseCall list \<Rightarrow> error + ('h, 'd, 's) DatabaseCache"
where
  "databaseRun U c [] = Inr c"
| "databaseRun U c (call # calls) =
     (case databaseStep U c call of Inl e \<Rightarrow> Inl e | Inr c' \<Rightarrow> databaseRun U c' calls)"

subsection \<open>Evictions and overwrites between a store and a lookup\<close>

text \<open>
  The three outer maps of a \<^verbatim>\<open>SessionCache\<close>. A call evicts from a sub-cache when it
  deletes the keys of that outer map: the caching method of the sub-cache when the map
  holds more than \<open>maxCachedKeys\<close> keys, and \<^verbatim>\<open>ClearTableCache\<close> for the tables. A call
  stores at \<open>(k, n)\<close> when it writes the entry of the lowered name \<open>n\<close> under key \<open>k\<close>.
  A sequence of calls leaves \<open>(k, n)\<close> undisturbed when no call of it, in the state it
  runs in, evicts from the sub-cache or stores at \<open>(k, n)\<close>.
\<close>

datatype subCache = Indexes | Tables | Views

fun evicts :: "subCache \<Rightarrow> ('h, 'i, 't) SessionCache \<Rightarrow> ('h, 'i, 't) sessionCall \<Rightarrow> bool" where
  "evicts Indexes c (CallCacheTableIndexes key table idxs) =
     (len (makeIfNil (indexes c)) > maxCachedKeys)"
| "evicts Tables c (CallCacheTable key tableName table) =
     (len (makeIfNil (tables c)) > maxCachedKeys)"
| "evicts Tables c CallClearTableCache = True"
| "evicts Views c (CallCacheViews key vs) = (len (makeIfNil (views c)) > maxCachedKeys)"
| "evicts s c call = False"

fun stores :: "unicodeLower \<Rightarrow> subCache \<Rightarrow> 'h DataCacheKey \<Rightarrow> string \<Rightarrow> ('h, 'i, 't) sessionCall \<Rightarrow> bool" where
  "stores U Indexes k n (CallCacheTableIndexes key table idxs) =
     (key = k \<and> ToLower U table = ToLower U n)"
| "stores U Tables k n (CallCacheTable key tableName table) =
     (key = k \<and> ToLower U tableName = ToLower U n)"
| "stores U Views k n (CallCacheViews key vs) =
     (key = k \<and> ToLower U n \<in> set (map (ToLower U) (map Name vs)))"
| "stores U s k n call = False"

primrec undisturbed ::
  "unicodeLower \<Rightarrow> subCache \<Rightarrow> 'h DataCacheKey \<Rightarrow> string \<Rightarrow> ('h, 'i, 't) SessionCache
     \<Rightarrow> ('h, 'i, 't) sessionCall list \<Rightarrow> bool"
where
  "undisturbed U s k n c [] = True"
| "undisturbed U s k n c (call # calls) =
     (\<not> evicts s c call \<and> \<not> stores U s k n call \<and> undisturbed U s k n (sessionStep U c call) calls)"

text \<open>
  A sequence of calls without an eviction from a sub-cache, whatever it stores.
\<close>

primrec noEviction ::
  "unicodeLower \<Rightarrow> subCache \<Rightarrow> ('h, 'i, 't) SessionCache \<Rightarrow> ('h, 'i, 't) sessionCall list \<Rightarrow> bool"
where
  "noEviction U s c [] = True"
| "noEviction U s c (call # calls) = (\<not> evicts s c call \<and> noEviction U s (sessionStep U c call) calls)"

subsection \<open>Capacity\<close>

text \<open>
  A map field holds at most \<open>b\<close> keys: it is \<^verbatim>\<open>nil\<close>, or its finite set of keys has at
  most \<open>b\<close> elements. The bounded outer maps are the three of a \<^verbatim>\<open>SessionCache\<close> and
  the revision databases and initial states of a \<^verbatim>\<open>DatabaseCache\<close>; the fingerprints
  have one entry per database name and no flush.
\<close>

definition holdsAtMost :: "nat \<Rightarrow> ('k, 'v) gomap \<Rightarrow> bool" where
  "holdsAtMost b m = (finite (dom (makeIfNil m)) \<and> len (makeIfNil m) \<le> b)"

definition sessionBounded :: "nat \<Rightarrow> ('h, 'i, 't) SessionCache \<Rightarrow> bool" where
  "sessionBounded b c =
     (holdsAtMost b (indexes c) \<and> holdsAtMost b (tables c) \<and> holdsAtMost b (views c))"

definition databaseBounded :: "nat \<Rightarrow> ('h, 'd, 's) DatabaseCache \<Rightarrow> bool" where
  "databaseBounded b c = (holdsAtMost b (revisionDbs c) \<and> holdsAtMost b (initialDbStates c))"

text \<open>
  Calls of one caching method, from the list of their arguments, and the key that
  \<^verbatim>\<open>CacheRevisionDb\<close> builds for a database.
\<close>

fun indexCall :: "'h DataCacheKey \<times> string \<times> 'i list \<Rightarrow> ('h, 'i, 't) sessionCall" where
  "indexCall (key, table, idxs) = CallCacheTableIndexes key table idxs"

fun tableCall :: "'h DataCacheKey \<times> string \<times> 't \<Rightarrow> ('h, 'i, 't) sessionCall" where
  "tableCall (key, tableName, table) = CallCacheTable key tableName table"

fun viewsCall :: "'h DataCacheKey \<times> ViewDefinition list \<Rightarrow> ('h, 'i, 't) sessionCall" where
  "viewsCall (key, vs) = CallCacheViews key vs"

fun stateCall :: "'h DataCacheKey \<times> string \<times> 's \<Rightarrow> ('h, 'd, 's) databaseCall" where
  "stateCall (key, revisionDbName, state) = CallCacheInitialDbState key revisionDbName state"

definition keyOf :: "unicodeLower \<Rightarrow> 'd SqlDatabase_scheme \<Rightarrow> revisionDbCacheKey" where
  "keyOf U database =
     \<lparr>revisionDbCacheKey.dbName = ToLower U (RevisionQualifiedName database),
      requestedName = RequestedName database\<rparr>"

text \<open>
  Test data: the arguments of the \<open>i\<close>-th call of a test that stores under the hashes
  1, 2, 3 and so on (for the revision databases, under requested names of 1, 2, 3 and
  so on letters). All these names are ASCII, so that \<open>ToLower\<close> never calls its
  parameter in these runs.

  \<open>sampleUnicodeLower\<close> is a value for the parameter where a closed statement needs
  one. It has the line of the Unicode tables that sends \<^verbatim>\<open>U+00C9\<close>, the letter E with
  acute accent (the bytes C3 89 in UTF-8), to \<^verbatim>\<open>U+00E9\<close>, its small letter (the bytes
  C3 A9), on the two strings it is applied to besides the small letter itself: the
  capital letter alone, and the capital letter followed by \<^verbatim>\<open>/Main\<close>, which Go lowers to
  the small letter followed by \<^verbatim>\<open>/main\<close>.
\<close>

definition sampleUnicodeLower :: unicodeLower where
  "sampleUnicodeLower s =
     (if s = [CHR 0xC3, CHR 0x89] then [CHR 0xC3, CHR 0xA9]
      else if s = [CHR 0xC3, CHR 0x89] @ ''/Main'' then [CHR 0xC3, CHR 0xA9] @ ''/main''
      else s)"

definition indexEntry :: "nat \<Rightarrow> nat DataCacheKey \<times> string \<times> 'i list" where
  "indexEntry i = (DataCacheKey i, ''t'', [])"

definition tableEntry :: "nat \<Rightarrow> nat DataCacheKey \<times> string \<times> nat" where
  "tableEntry i = (DataCacheKey i, ''t'', i)"

definition viewsEntry :: "nat \<Rightarrow> nat DataCacheKey \<times> ViewDefinition list" where
  "viewsEntry i =
     (DataCacheKey i, [\<lparr>Name = ''v'', TextDefinition = ''select 1'', CreateViewStatement = ''c''\<rparr>])"

definition stateEntry :: "nat \<Rightarrow> nat DataCacheKey \<times> string \<times> nat" where
  "stateEntry i = (DataCacheKey i, ''db/main'', i)"

definition dbEntry :: "nat \<Rightarrow> SqlDatabase" where
  "dbEntry i = \<lparr>RevisionQualifiedName = ''db/main'', RequestedName = replicate i (CHR ''x'')\<rparr>"

section \<open>Properties\<close>

subsection \<open>Basic facts\<close>

lemma flushIfOver_keep: "\<not> len m > maxCachedKeys \<Longrightarrow> flushIfOver m = m"
  by (simp add: flushIfOver_def)

lemma flushIfOver_full: "len m > maxCachedKeys \<Longrightarrow> flushIfOver m = Map.empty"
  by (simp add: flushIfOver_def)

lemma ToLower_ascii: "list_all isASCII s \<Longrightarrow> ToLower U s = map toLowerByte s"
  by (simp add: ToLower_def)

lemma putViews_other: "n \<notin> set (map (ToLower U) (map Name vs)) \<Longrightarrow> putViews U m vs n = m n"
  by (induction vs arbitrary: m) auto

lemma putViews_last:
  "ToLower U (Name v) \<notin> set (map (ToLower U) (map Name post)) \<Longrightarrow>
   putViews U m (pre @ v # post) (ToLower U (Name v)) = Some v"
  by (induction pre arbitrary: m) (auto simp: putViews_other)

subsection \<open>A lookup after a store\<close>

lemma get_cache_indexes: "GetTableIndexesCache U (CacheTableIndexes U c k n v) k n = Some v"
  by (simp add: GetTableIndexesCache_def CacheTableIndexes_def Let_def)

lemma get_cache_table: "GetCachedTable U (CacheTable U c k n v) k n = Some v"
  by (simp add: GetCachedTable_def CacheTable_def Let_def)

lemma get_cache_views:
  "ToLower U (Name v) \<notin> set (map (ToLower U) (map Name post)) \<Longrightarrow>
   GetCachedViewDefinition U (CacheViews U c k (pre @ v # post)) k (Name v) = Some v"
  by (simp add: GetCachedViewDefinition_def CacheViews_def putViews_last Let_def)

text \<open>One call that neither evicts nor overwrites keeps what a lookup finds.\<close>

lemma frame_indexes:
  "GetTableIndexesCache U c k n = Some v \<Longrightarrow> \<not> evicts Indexes c call \<Longrightarrow>
   \<not> stores U Indexes k n call \<Longrightarrow> GetTableIndexesCache U (sessionStep U c call) k n = Some v"
  by (cases call)
     (auto simp: GetTableIndexesCache_def CacheTableIndexes_def CacheTable_def
        ClearTableCache_def CacheViews_def flushIfOver_keep makeIfNil_def innerOrNew_def
        Let_def split: option.splits)

lemma frame_tables:
  "GetCachedTable U c k n = Some v \<Longrightarrow> \<not> evicts Tables c call \<Longrightarrow>
   \<not> stores U Tables k n call \<Longrightarrow> GetCachedTable U (sessionStep U c call) k n = Some v"
  by (cases call)
     (auto simp: GetCachedTable_def CacheTableIndexes_def CacheTable_def
        ClearTableCache_def CacheViews_def flushIfOver_keep makeIfNil_def innerOrNew_def
        Let_def split: option.splits)

lemma frame_views:
  "GetCachedViewDefinition U c k n = Some v \<Longrightarrow> \<not> evicts Views c call \<Longrightarrow>
   \<not> stores U Views k n call \<Longrightarrow> GetCachedViewDefinition U (sessionStep U c call) k n = Some v"
  by (cases call)
     (auto simp: GetCachedViewDefinition_def CacheTableIndexes_def CacheTable_def
        ClearTableCache_def CacheViews_def flushIfOver_keep makeIfNil_def innerOrNew_def
        Let_def putViews_other split: option.splits)

lemma run_indexes:
  "GetTableIndexesCache U c k n = Some v \<Longrightarrow> undisturbed U Indexes k n c calls \<Longrightarrow>
   GetTableIndexesCache U (sessionRun U c calls) k n = Some v"
  by (induction calls arbitrary: c) (auto simp: frame_indexes)

lemma run_tables:
  "GetCachedTable U c k n = Some v \<Longrightarrow> undisturbed U Tables k n c calls \<Longrightarrow>
   GetCachedTable U (sessionRun U c calls) k n = Some v"
  by (induction calls arbitrary: c) (auto simp: frame_tables)

lemma run_views:
  "GetCachedViewDefinition U c k n = Some v \<Longrightarrow> undisturbed U Views k n c calls \<Longrightarrow>
   GetCachedViewDefinition U (sessionRun U c calls) k n = Some v"
  by (induction calls arbitrary: c) (auto simp: frame_views)

text \<open>
  Claim C1. A lookup with \<open>(k, n)\<close> after the caching method stored a value under
  \<open>(k, n)\<close> returns that value and \<^verbatim>\<open>true\<close>, whatever the cache held before and
  whatever calls come in between, as long as none of them evicts from the sub-cache or
  stores at \<open>(k, n)\<close> again. For the indexes and the tables the stored value is the
  argument of the call. \<^verbatim>\<open>CacheViews\<close> stores a view \<open>v\<close> of its list under the name of
  \<open>v\<close> when no later view of the list has the same lowered name.
\<close>

theorem lookup_after_store:
  "(undisturbed U Indexes k n (CacheTableIndexes U c k n idxs) calls \<longrightarrow>
      GetTableIndexesCache U (sessionRun U (CacheTableIndexes U c k n idxs) calls) k n = Some idxs) \<and>
   (undisturbed U Tables k n (CacheTable U c k n table) calls \<longrightarrow>
      GetCachedTable U (sessionRun U (CacheTable U c k n table) calls) k n = Some table) \<and>
   (ToLower U (Name v) \<notin> set (map (ToLower U) (map Name post)) \<and>
    undisturbed U Views k (Name v) (CacheViews U c k (pre @ v # post)) calls \<longrightarrow>
      GetCachedViewDefinition U (sessionRun U (CacheViews U c k (pre @ v # post)) calls) k (Name v)
        = Some v)"
  by (simp add: run_indexes run_tables run_views get_cache_indexes get_cache_table
      get_cache_views)

theorem lookup_after_store_witness:
  "\<forall>U.
   undisturbed U Indexes (DataCacheKey (1::nat)) ''Orders''
     (CacheTableIndexes U newSessionCache (DataCacheKey 1) ''Orders'' [7::nat])
     [CallCacheTable (DataCacheKey 2) ''t'' (5::nat), CallCacheViews (DataCacheKey 2) []] \<and>
   GetTableIndexesCache U
     (sessionRun U (CacheTableIndexes U newSessionCache (DataCacheKey (1::nat)) ''Orders'' [7::nat])
        [CallCacheTable (DataCacheKey 2) ''t'' (5::nat), CallCacheViews (DataCacheKey 2) []])
     (DataCacheKey 1) ''Orders'' = Some [7] \<and>
   undisturbed U Tables (DataCacheKey (1::nat)) ''Orders''
     (CacheTable U newSessionCache (DataCacheKey 1) ''Orders'' (3::nat))
     [CallCacheTable (DataCacheKey 2) ''t'' 5, CallCacheTableIndexes (DataCacheKey 1) ''Orders'' [7::nat]] \<and>
   GetCachedTable U
     (sessionRun U (CacheTable U newSessionCache (DataCacheKey (1::nat)) ''Orders'' (3::nat))
        [CallCacheTable (DataCacheKey 2) ''t'' 5, CallCacheTableIndexes (DataCacheKey 1) ''Orders'' [7::nat]])
     (DataCacheKey 1) ''Orders'' = Some 3 \<and>
   ToLower U (Name \<lparr>Name = ''V1'', TextDefinition = ''select 1'', CreateViewStatement = ''''\<rparr>)
     \<notin> set (map (ToLower U) (map Name
          [\<lparr>Name = ''V2'', TextDefinition = ''select 2'', CreateViewStatement = ''''\<rparr>])) \<and>
   undisturbed U Views (DataCacheKey (1::nat))
     (Name \<lparr>Name = ''V1'', TextDefinition = ''select 1'', CreateViewStatement = ''''\<rparr>)
     (CacheViews U (newSessionCache :: (nat, nat, nat) SessionCache) (DataCacheKey 1)
        ([] @ \<lparr>Name = ''V1'', TextDefinition = ''select 1'', CreateViewStatement = ''''\<rparr>
           # [\<lparr>Name = ''V2'', TextDefinition = ''select 2'', CreateViewStatement = ''''\<rparr>]))
     [CallCacheViews (DataCacheKey 2) []] \<and>
   GetCachedViewDefinition U
     (sessionRun U
        (CacheViews U (newSessionCache :: (nat, nat, nat) SessionCache) (DataCacheKey 1)
           ([] @ \<lparr>Name = ''V1'', TextDefinition = ''select 1'', CreateViewStatement = ''''\<rparr>
              # [\<lparr>Name = ''V2'', TextDefinition = ''select 2'', CreateViewStatement = ''''\<rparr>]))
        [CallCacheViews (DataCacheKey 2) []])
     (DataCacheKey 1)
     (Name \<lparr>Name = ''V1'', TextDefinition = ''select 1'', CreateViewStatement = ''''\<rparr>)
     = Some \<lparr>Name = ''V1'', TextDefinition = ''select 1'', CreateViewStatement = ''''\<rparr>"
  (is "\<forall>U. ?h1 U \<and> ?c1 U \<and> ?h2 U \<and> ?c2 U \<and> ?h3 U \<and> ?h4 U \<and> ?c3 U")
proof (rule allI)
  fix U :: unicodeLower
  have h1: "?h1 U"
    by (simp add: CacheTableIndexes_def newSessionCache_def makeIfNil_def flushIfOver_def
        maxCachedKeys_def innerOrNew_def len_def Let_def)
  have h2: "?h2 U"
    by (simp add: CacheTable_def newSessionCache_def makeIfNil_def flushIfOver_def
        maxCachedKeys_def innerOrNew_def len_def Let_def)
  have h3: "?h3 U"
    by code_simp
  have h4: "?h4 U"
    by (simp add: CacheViews_def newSessionCache_def makeIfNil_def flushIfOver_def
        maxCachedKeys_def innerOrNew_def len_def Let_def)
  from h1 h2 h3 h4
    lookup_after_store [where U = U and k = "DataCacheKey (1::nat)" and n = "''Orders''"
      and c = "newSessionCache :: (nat, nat, nat) SessionCache"
      and idxs = "[7::nat]" and table = "3::nat"
      and calls = "[CallCacheTable (DataCacheKey 2) ''t'' (5::nat), CallCacheViews (DataCacheKey 2) []]"]
    lookup_after_store [where U = U and k = "DataCacheKey (1::nat)" and n = "''Orders''"
      and c = "newSessionCache :: (nat, nat, nat) SessionCache"
      and idxs = "[7::nat]" and table = "3::nat"
      and calls = "[CallCacheTable (DataCacheKey 2) ''t'' 5, CallCacheTableIndexes (DataCacheKey 1) ''Orders'' [7::nat]]"]
    lookup_after_store [where U = U and k = "DataCacheKey (1::nat)"
      and c = "newSessionCache :: (nat, nat, nat) SessionCache"
      and v = "\<lparr>Name = ''V1'', TextDefinition = ''select 1'', CreateViewStatement = ''''\<rparr>"
      and pre = "[]"
      and post = "[\<lparr>Name = ''V2'', TextDefinition = ''select 2'', CreateViewStatement = ''''\<rparr>]"
      and calls = "[CallCacheViews (DataCacheKey 2) []]"]
  show "?h1 U \<and> ?c1 U \<and> ?h2 U \<and> ?c2 U \<and> ?h3 U \<and> ?h4 U \<and> ?c3 U" by blast
qed

text \<open>
  A store under another casing of the name is a store at the same entry. With the line
  of the Unicode tables for the letter E with acute accent, \<^verbatim>\<open>CacheTable\<close> under the
  capital letter and then under the small letter leaves the second table under both
  names, and of two views whose names are the two letters the second one is kept.
\<close>

lemma overwrite_by_other_casing:
  "stores sampleUnicodeLower Tables (DataCacheKey (1::nat)) [CHR 0xC3, CHR 0x89]
     (CallCacheTable (DataCacheKey 1) [CHR 0xC3, CHR 0xA9] (2::nat)
        :: (nat, nat, nat) sessionCall) \<and>
   GetCachedTable sampleUnicodeLower
     (sessionRun sampleUnicodeLower
        (CacheTable sampleUnicodeLower (newSessionCache :: (nat, nat, nat) SessionCache)
           (DataCacheKey 1) [CHR 0xC3, CHR 0x89] 1)
        [CallCacheTable (DataCacheKey 1) [CHR 0xC3, CHR 0xA9] 2])
     (DataCacheKey 1) [CHR 0xC3, CHR 0x89] = Some 2 \<and>
   GetCachedViewDefinition sampleUnicodeLower
     (CacheViews sampleUnicodeLower (newSessionCache :: (nat, nat, nat) SessionCache)
        (DataCacheKey 1)
        [\<lparr>Name = [CHR 0xC3, CHR 0x89], TextDefinition = ''select 1'', CreateViewStatement = ''c''\<rparr>,
         \<lparr>Name = [CHR 0xC3, CHR 0xA9], TextDefinition = ''select 2'', CreateViewStatement = ''c''\<rparr>])
     (DataCacheKey 1) [CHR 0xC3, CHR 0x89]
     = Some \<lparr>Name = [CHR 0xC3, CHR 0xA9], TextDefinition = ''select 2'', CreateViewStatement = ''c''\<rparr>"
proof -
  have l: "ToLower sampleUnicodeLower [CHR 0xC3, CHR 0x89] = [CHR 0xC3, CHR 0xA9]"
    "ToLower sampleUnicodeLower [CHR 0xC3, CHR 0xA9] = [CHR 0xC3, CHR 0xA9]"
    by code_simp+
  show ?thesis
    by (simp add: l GetCachedTable_def CacheTable_def GetCachedViewDefinition_def CacheViews_def
        newSessionCache_def makeIfNil_def flushIfOver_def maxCachedKeys_def innerOrNew_def
        len_def Let_def)
qed

subsection \<open>Names and keys\<close>



subsection \<open>ViewsCached\<close>

lemma not_cached_step:
  "\<not> ViewsCached c k \<Longrightarrow> \<forall>vs. call \<noteq> CallCacheViews k vs \<Longrightarrow> \<not> ViewsCached (sessionStep U c call) k"
  by (cases call)
     (auto simp: ViewsCached_def CacheTableIndexes_def CacheTable_def ClearTableCache_def
        CacheViews_def flushIfOver_def makeIfNil_def Let_def split: option.splits if_splits)

lemma not_cached_run:
  "\<not> ViewsCached c k \<Longrightarrow> \<forall>vs. CallCacheViews k vs \<notin> set calls \<Longrightarrow>
   \<not> ViewsCached (sessionRun U c calls) k"
proof (induction calls arbitrary: c)
  case Nil
  then show ?case by simp
next
  case (Cons call calls)
  from Cons.prems have "\<not> ViewsCached (sessionStep U c call) k"
    by (intro not_cached_step) auto
  with Cons show ?case by simp
qed

lemma cached_step:
  "ViewsCached c k \<Longrightarrow> \<not> evicts Views c call \<Longrightarrow> ViewsCached (sessionStep U c call) k"
  by (cases call)
     (auto simp: ViewsCached_def CacheTableIndexes_def CacheTable_def ClearTableCache_def
        CacheViews_def flushIfOver_keep makeIfNil_def Let_def split: option.splits)

lemma cached_run:
  "ViewsCached c k \<Longrightarrow> noEviction U Views c calls \<Longrightarrow> ViewsCached (sessionRun U c calls) k"
  by (induction calls arbitrary: c) (auto simp: cached_step)

lemma cached_after: "ViewsCached (CacheViews U c k vs) k"
  by (simp add: ViewsCached_def CacheViews_def Let_def)

text \<open>
  Claim C7. \<^verbatim>\<open>ViewsCached(k)\<close> is false on a cache that has seen no \<^verbatim>\<open>CacheViews\<close>
  call for the key \<open>k\<close>, whatever other calls it has seen; it is true after
  \<^verbatim>\<open>CacheViews(k, views)\<close>, also for the empty list, and stays true as long as no call
  evicts from the views.
\<close>

theorem views_cached_iff_stored:
  fixes c :: "('h, 'i, 't) SessionCache"
  shows
  "((\<forall>vs. CallCacheViews k vs \<notin> set calls) \<longrightarrow>
      \<not> ViewsCached (sessionRun U (newSessionCache :: ('h, 'i, 't) SessionCache) calls) k) \<and>
   ViewsCached (CacheViews U c k []) k \<and>
   (noEviction U Views (CacheViews U c k vs) calls' \<longrightarrow>
      ViewsCached (sessionRun U (CacheViews U c k vs) calls') k)"
proof -
  have "\<not> ViewsCached (newSessionCache :: ('h, 'i, 't) SessionCache) k"
    by (simp add: ViewsCached_def newSessionCache_def)
  then have "(\<forall>vs. CallCacheViews k vs \<notin> set calls) \<longrightarrow>
      \<not> ViewsCached (sessionRun U (newSessionCache :: ('h, 'i, 't) SessionCache) calls) k"
    using not_cached_run [where c = "newSessionCache :: ('h, 'i, 't) SessionCache" and k = k
        and calls = calls and U = U] by blast
  moreover have "noEviction U Views (CacheViews U c k vs) calls' \<longrightarrow>
      ViewsCached (sessionRun U (CacheViews U c k vs) calls') k"
    using cached_run [OF cached_after] by blast
  ultimately show ?thesis
    using cached_after [where c = c and k = k and vs = "[]" and U = U] by blast
qed

theorem views_cached_iff_stored_witness:
  "\<forall>U.
   (\<forall>vs. CallCacheViews (DataCacheKey (1::nat)) vs \<notin>
      set [CallCacheViews (DataCacheKey 2) [], CallCacheTable (DataCacheKey 1) ''t'' (3::nat),
           CallCacheTableIndexes (DataCacheKey 1) ''t'' [7::nat]]) \<and>
   \<not> ViewsCached
       (sessionRun U newSessionCache
          [CallCacheViews (DataCacheKey 2) [], CallCacheTable (DataCacheKey 1) ''t'' (3::nat),
           CallCacheTableIndexes (DataCacheKey 1) ''t'' [7::nat]])
       (DataCacheKey (1::nat)) \<and>
   ViewsCached (CacheViews U (newSessionCache :: (nat, nat, nat) SessionCache) (DataCacheKey 1) [])
     (DataCacheKey 1) \<and>
   noEviction U Views
     (CacheViews U (newSessionCache :: (nat, nat, nat) SessionCache) (DataCacheKey 1) [])
     [CallCacheViews (DataCacheKey 2) [], CallClearTableCache] \<and>
   ViewsCached
     (sessionRun U (CacheViews U (newSessionCache :: (nat, nat, nat) SessionCache) (DataCacheKey 1) [])
        [CallCacheViews (DataCacheKey 2) [], CallClearTableCache])
     (DataCacheKey 1)"
  (is "\<forall>U. ?W U")
proof (rule allI)
  fix U :: unicodeLower
  have h1: "\<forall>vs. CallCacheViews (DataCacheKey (1::nat)) vs \<notin>
      set [CallCacheViews (DataCacheKey 2) [], CallCacheTable (DataCacheKey 1) ''t'' (3::nat),
           CallCacheTableIndexes (DataCacheKey 1) ''t'' [7::nat]]"
    by simp
  have h2: "noEviction U Views
     (CacheViews U (newSessionCache :: (nat, nat, nat) SessionCache) (DataCacheKey 1) [])
     [CallCacheViews (DataCacheKey 2) [], CallClearTableCache]"
    by (simp add: CacheViews_def newSessionCache_def makeIfNil_def flushIfOver_def
        maxCachedKeys_def innerOrNew_def len_def Let_def)
  from h1 h2
    views_cached_iff_stored [where U = U and k = "DataCacheKey (1::nat)"
      and c = "newSessionCache :: (nat, nat, nat) SessionCache" and vs = "[]"
      and calls = "[CallCacheViews (DataCacheKey 2) [], CallCacheTable (DataCacheKey 1) ''t'' (3::nat),
           CallCacheTableIndexes (DataCacheKey 1) ''t'' [7::nat]]"
      and calls' = "[CallCacheViews (DataCacheKey 2) [], CallClearTableCache]"]
  show "?W U" by blast
qed

subsection \<open>Session variables\<close>

text \<open>
  Claim C5. When the transaction has no initial root for the base database name of the
  branch, \<^verbatim>\<open>CacheSessionVars\<close> returns \<^verbatim>\<open>true\<close> and the cache is unchanged: a
  fingerprint stored before is still there.
\<close>

theorem no_root_caches_nothing:
  "GetInitialRoot tx (dbState.dbName (dbState bs)) = None \<Longrightarrow>
   CacheSessionVars c bs tx = Inr (c, True)"
  by (simp add: CacheSessionVars_def Let_def)

theorem no_root_caches_nothing_witness:
  "GetInitialRoot \<lparr>GetInitialRoot = [''other'' \<mapsto> (5::nat)]\<rparr>
     (dbState.dbName (dbState \<lparr>dbState = \<lparr>dbName = ''db''\<rparr>, head = ''refs/heads/main''\<rparr>)) = None \<and>
   CacheSessionVars
     ((newDatabaseCache :: (nat, unit, nat) DatabaseCache)
        \<lparr>sessionVars := Some [''db'' \<mapsto> sessionVarCacheKey (DataCacheKey 4) ''refs/heads/main'']\<rparr>)
     \<lparr>dbState = \<lparr>dbName = ''db''\<rparr>, head = ''refs/heads/main''\<rparr>
     \<lparr>GetInitialRoot = [''other'' \<mapsto> 5]\<rparr>
   = Inr ((newDatabaseCache :: (nat, unit, nat) DatabaseCache)
        \<lparr>sessionVars := Some [''db'' \<mapsto> sessionVarCacheKey (DataCacheKey 4) ''refs/heads/main'']\<rparr>,
          True)"
proof -
  have h: "GetInitialRoot \<lparr>GetInitialRoot = [''other'' \<mapsto> (5::nat)]\<rparr>
     (dbState.dbName (dbState \<lparr>dbState = \<lparr>dbName = ''db''\<rparr>, head = ''refs/heads/main''\<rparr>)) = None"
    by simp
  from h no_root_caches_nothing [OF h] show ?thesis by blast
qed

text \<open>
  Claim C4. On a cache whose fingerprint map \<open>m\<close> is allocated, when the transaction
  has the initial root \<open>r\<close> for the base database name of the branch,
  \<^verbatim>\<open>CacheSessionVars\<close> stores the fingerprint of \<open>r\<close> and the head under that name and
  returns whether \<open>m\<close> held a different fingerprint or none. So the first call for a
  database returns \<^verbatim>\<open>true\<close>, the same call again returns \<^verbatim>\<open>false\<close>, and a call with
  another head returns \<^verbatim>\<open>true\<close>.
\<close>

theorem session_vars_fingerprint:
  fixes c :: "('h, 'd, 's) DatabaseCache" and bs bs' :: branchState
  defines "name \<equiv> dbState.dbName (dbState bs)"
  assumes "sessionVars c = Some m"
    and "GetInitialRoot tx name = Some r"
  defines "c' \<equiv> c\<lparr>sessionVars :=
              Some (m(name \<mapsto> sessionVarCacheKey (DataCacheKey r) (branchState.head bs)))\<rparr>"
  shows "CacheSessionVars c bs tx =
           Inr (c', m name \<noteq> Some (sessionVarCacheKey (DataCacheKey r) (branchState.head bs))) \<and>
         (m name = None \<longrightarrow> CacheSessionVars c bs tx = Inr (c', True)) \<and>
         CacheSessionVars c' bs tx = Inr (c', False) \<and>
         (branchState.head bs' \<noteq> branchState.head bs \<and> dbState bs' = dbState bs \<longrightarrow>
            (\<exists>c''. CacheSessionVars c' bs' tx = Inr (c'', True)))"
  using assms by (auto simp: CacheSessionVars_def Let_def split: option.splits)

theorem session_vars_fingerprint_witness:
  "sessionVars (newDatabaseCache :: (nat, unit, nat) DatabaseCache) = Some Map.empty \<and>
   GetInitialRoot \<lparr>GetInitialRoot = [''db'' \<mapsto> (5::nat)]\<rparr>
     (dbState.dbName (dbState \<lparr>dbState = \<lparr>dbName = ''db''\<rparr>, head = ''refs/heads/main''\<rparr>)) = Some 5 \<and>
   CacheSessionVars (newDatabaseCache :: (nat, unit, nat) DatabaseCache)
     \<lparr>dbState = \<lparr>dbName = ''db''\<rparr>, head = ''refs/heads/main''\<rparr>
     \<lparr>GetInitialRoot = [''db'' \<mapsto> 5]\<rparr>
   = Inr (newDatabaseCache
            \<lparr>sessionVars := Some [''db'' \<mapsto> sessionVarCacheKey (DataCacheKey 5) ''refs/heads/main'']\<rparr>,
          True) \<and>
   CacheSessionVars
     ((newDatabaseCache :: (nat, unit, nat) DatabaseCache)
        \<lparr>sessionVars := Some [''db'' \<mapsto> sessionVarCacheKey (DataCacheKey 5) ''refs/heads/main'']\<rparr>)
     \<lparr>dbState = \<lparr>dbName = ''db''\<rparr>, head = ''refs/heads/main''\<rparr>
     \<lparr>GetInitialRoot = [''db'' \<mapsto> 5]\<rparr>
   = Inr (newDatabaseCache
            \<lparr>sessionVars := Some [''db'' \<mapsto> sessionVarCacheKey (DataCacheKey 5) ''refs/heads/main'']\<rparr>,
          False) \<and>
   branchState.head \<lparr>dbState = \<lparr>dbName = ''db''\<rparr>, head = ''refs/heads/dev''\<rparr>
     \<noteq> branchState.head \<lparr>dbState = \<lparr>dbName = ''db''\<rparr>, head = ''refs/heads/main''\<rparr> \<and>
   (\<exists>c''. CacheSessionVars
     ((newDatabaseCache :: (nat, unit, nat) DatabaseCache)
        \<lparr>sessionVars := Some [''db'' \<mapsto> sessionVarCacheKey (DataCacheKey 5) ''refs/heads/main'']\<rparr>)
     \<lparr>dbState = \<lparr>dbName = ''db''\<rparr>, head = ''refs/heads/dev''\<rparr>
     \<lparr>GetInitialRoot = [''db'' \<mapsto> 5]\<rparr>
   = Inr (c'', True))"
proof -
  have h1: "sessionVars (newDatabaseCache :: (nat, unit, nat) DatabaseCache) = Some Map.empty"
    by (simp add: newDatabaseCache_def)
  have h2: "GetInitialRoot \<lparr>GetInitialRoot = [''db'' \<mapsto> (5::nat)]\<rparr>
     (dbState.dbName (dbState \<lparr>dbState = \<lparr>dbName = ''db''\<rparr>, head = ''refs/heads/main''\<rparr>)) = Some 5"
    by simp
  have h3: "branchState.head \<lparr>dbState = \<lparr>dbName = ''db''\<rparr>, head = ''refs/heads/dev''\<rparr>
     \<noteq> branchState.head \<lparr>dbState = \<lparr>dbName = ''db''\<rparr>, head = ''refs/heads/main''\<rparr>"
    by simp
  from h1 h2 h3
    session_vars_fingerprint [OF h1 h2,
      where bs' = "\<lparr>dbState = \<lparr>dbName = ''db''\<rparr>, head = ''refs/heads/dev''\<rparr>"]
  show ?thesis by simp
qed

subsection \<open>Revision databases and initial states\<close>

text \<open>
  Claim C6. \<^verbatim>\<open>CacheRevisionDb\<close> stores the database under the pair of its lowered
  revision-qualified name and its requested name as it is; \<^verbatim>\<open>GetCachedRevisionDb\<close>
  looks the pair of its arguments up as they are. After \<^verbatim>\<open>CacheRevisionDb(db)\<close> the
  lookup with that pair finds \<open>db\<close>; any other pair that missed before still misses;
  on a new cache the lookup hits exactly for that pair.
\<close>

theorem revision_db_exact_key:
  fixes c :: "('h, 'd, 's) DatabaseCache"
  shows
  "GetCachedRevisionDb (CacheRevisionDb U c db) (ToLower U (RevisionQualifiedName db)) (RequestedName db)
     = Some db \<and>
   (GetCachedRevisionDb c rn qn = None \<and>
    \<not> (rn = ToLower U (RevisionQualifiedName db) \<and> qn = RequestedName db) \<longrightarrow>
      GetCachedRevisionDb (CacheRevisionDb U c db) rn qn = None) \<and>
   (GetCachedRevisionDb (CacheRevisionDb U (newDatabaseCache :: ('h, 'd, 's) DatabaseCache) db) rn qn \<noteq> None) =
     (rn = ToLower U (RevisionQualifiedName db) \<and> qn = RequestedName db)"
  by (auto simp: GetCachedRevisionDb_def CacheRevisionDb_def newDatabaseCache_def Let_def
      makeIfNil_def flushIfOver_def split: option.splits if_splits)

theorem revision_db_exact_key_witness:
  "(\<forall>U.
   GetCachedRevisionDb (newDatabaseCache :: (nat, unit, nat) DatabaseCache) ''DB/Main'' ''DB'' = None \<and>
   \<not> (''DB/Main'' = ToLower U (RevisionQualifiedName \<lparr>RevisionQualifiedName = ''DB/Main'', RequestedName = ''DB''\<rparr>) \<and>
      ''DB'' = RequestedName \<lparr>RevisionQualifiedName = ''DB/Main'', RequestedName = ''DB''\<rparr>) \<and>
   GetCachedRevisionDb
     (CacheRevisionDb U (newDatabaseCache :: (nat, unit, nat) DatabaseCache)
        \<lparr>RevisionQualifiedName = ''DB/Main'', RequestedName = ''DB''\<rparr>) ''DB/Main'' ''DB'' = None \<and>
   GetCachedRevisionDb
     (CacheRevisionDb U (newDatabaseCache :: (nat, unit, nat) DatabaseCache)
        \<lparr>RevisionQualifiedName = ''DB/Main'', RequestedName = ''DB''\<rparr>) ''db/main'' ''DB''
     = Some \<lparr>RevisionQualifiedName = ''DB/Main'', RequestedName = ''DB''\<rparr>) \<and>
   GetCachedRevisionDb (newDatabaseCache :: (nat, unit, nat) DatabaseCache)
     ([CHR 0xC3, CHR 0x89] @ ''/main'') ''DB'' = None \<and>
   \<not> ([CHR 0xC3, CHR 0x89] @ ''/main''
        = ToLower sampleUnicodeLower (RevisionQualifiedName
            \<lparr>RevisionQualifiedName = [CHR 0xC3, CHR 0x89] @ ''/Main'', RequestedName = ''DB''\<rparr>) \<and>
      ''DB'' = RequestedName
            \<lparr>RevisionQualifiedName = [CHR 0xC3, CHR 0x89] @ ''/Main'', RequestedName = ''DB''\<rparr>) \<and>
   GetCachedRevisionDb
     (CacheRevisionDb sampleUnicodeLower (newDatabaseCache :: (nat, unit, nat) DatabaseCache)
        \<lparr>RevisionQualifiedName = [CHR 0xC3, CHR 0x89] @ ''/Main'', RequestedName = ''DB''\<rparr>)
     ([CHR 0xC3, CHR 0x89] @ ''/main'') ''DB'' = None \<and>
   GetCachedRevisionDb
     (CacheRevisionDb sampleUnicodeLower (newDatabaseCache :: (nat, unit, nat) DatabaseCache)
        \<lparr>RevisionQualifiedName = [CHR 0xC3, CHR 0x89] @ ''/Main'', RequestedName = ''DB''\<rparr>)
     ([CHR 0xC3, CHR 0xA9] @ ''/main'') ''DB''
     = Some \<lparr>RevisionQualifiedName = [CHR 0xC3, CHR 0x89] @ ''/Main'', RequestedName = ''DB''\<rparr>"
  (is "(\<forall>U. ?W U) \<and> ?S")
proof (rule conjI)
  show "\<forall>U. ?W U"
  proof (rule allI)
  fix U :: unicodeLower
  have l: "ToLower U ''DB/Main'' = ''db/main''"
    by code_simp
  have h1: "GetCachedRevisionDb (newDatabaseCache :: (nat, unit, nat) DatabaseCache) ''DB/Main'' ''DB'' = None"
    by (simp add: GetCachedRevisionDb_def newDatabaseCache_def)
  have h2: "\<not> (''DB/Main'' = ToLower U (RevisionQualifiedName \<lparr>RevisionQualifiedName = ''DB/Main'', RequestedName = ''DB''\<rparr>) \<and>
      ''DB'' = RequestedName \<lparr>RevisionQualifiedName = ''DB/Main'', RequestedName = ''DB''\<rparr>)"
    by (simp add: l)
  from h1 h2
    revision_db_exact_key [where U = U and c = "newDatabaseCache :: (nat, unit, nat) DatabaseCache"
      and db = "\<lparr>RevisionQualifiedName = ''DB/Main'', RequestedName = ''DB''\<rparr>"
      and rn = "''DB/Main''" and qn = "''DB''"]
  show "?W U" by (simp add: l)
  qed
next
  have l: "ToLower sampleUnicodeLower ([CHR 0xC3, CHR 0x89] @ ''/Main'')
      = [CHR 0xC3, CHR 0xA9] @ ''/main''"
    by code_simp
  have h1: "GetCachedRevisionDb (newDatabaseCache :: (nat, unit, nat) DatabaseCache)
     ([CHR 0xC3, CHR 0x89] @ ''/main'') ''DB'' = None"
    by (simp add: GetCachedRevisionDb_def newDatabaseCache_def)
  have h2: "\<not> ([CHR 0xC3, CHR 0x89] @ ''/main''
        = ToLower sampleUnicodeLower (RevisionQualifiedName
            \<lparr>RevisionQualifiedName = [CHR 0xC3, CHR 0x89] @ ''/Main'', RequestedName = ''DB''\<rparr>) \<and>
      ''DB'' = RequestedName
            \<lparr>RevisionQualifiedName = [CHR 0xC3, CHR 0x89] @ ''/Main'', RequestedName = ''DB''\<rparr>)"
    using l by simp
  from h1 h2
    revision_db_exact_key [where U = sampleUnicodeLower
      and c = "newDatabaseCache :: (nat, unit, nat) DatabaseCache"
      and db = "\<lparr>RevisionQualifiedName = [CHR 0xC3, CHR 0x89] @ ''/Main'', RequestedName = ''DB''\<rparr>"
      and rn = "[CHR 0xC3, CHR 0x89] @ ''/main''" and qn = "''DB''"]
  show ?S using l by simp
qed

text \<open>
  Claim C9. The initial states are kept under the revision database name as it is
  given, with no lowering: after \<^verbatim>\<open>CacheInitialDbState(k, n, v)\<close> the lookup with
  \<open>(k, n)\<close> finds \<open>v\<close>, a different name that missed before still misses even when it
  differs from \<open>n\<close> in case only, and on a new cache the lookup under \<open>k\<close> hits exactly
  for the name \<open>n\<close>.
\<close>

theorem initial_state_exact_name:
  fixes c :: "('h, 'd, 's) DatabaseCache"
  shows
  "GetCachedInitialDbState (CacheInitialDbState c k n v) k n = Some v \<and>
   (n' \<noteq> n \<and> GetCachedInitialDbState c k n' = None \<longrightarrow>
      GetCachedInitialDbState (CacheInitialDbState c k n v) k n' = None) \<and>
   (GetCachedInitialDbState
      (CacheInitialDbState (newDatabaseCache :: ('h, 'd, 's) DatabaseCache) k n v) k n' \<noteq> None) = (n' = n)"
  by (auto simp: GetCachedInitialDbState_def CacheInitialDbState_def newDatabaseCache_def Let_def
      makeIfNil_def flushIfOver_def innerOrNew_def split: option.splits if_splits)

theorem initial_state_exact_name_witness:
  "\<forall>U.
   ''db/main'' \<noteq> ''DB/main'' \<and> ToLower U ''db/main'' = ToLower U ''DB/main'' \<and>
   GetCachedInitialDbState (newDatabaseCache :: (nat, unit, nat) DatabaseCache) (DataCacheKey 1) ''db/main'' = None \<and>
   GetCachedInitialDbState
     (CacheInitialDbState (newDatabaseCache :: (nat, unit, nat) DatabaseCache) (DataCacheKey 1) ''DB/main'' 9)
     (DataCacheKey 1) ''db/main'' = None \<and>
   GetCachedInitialDbState
     (CacheInitialDbState (newDatabaseCache :: (nat, unit, nat) DatabaseCache) (DataCacheKey 1) ''DB/main'' 9)
     (DataCacheKey 1) ''DB/main'' = Some 9"
  (is "\<forall>U. ?W U")
proof (rule allI)
  fix U :: unicodeLower
  have h1: "''db/main'' \<noteq> ''DB/main''"
    by simp
  have h2: "ToLower U ''db/main'' = ToLower U ''DB/main''"
    by code_simp
  have h3: "GetCachedInitialDbState (newDatabaseCache :: (nat, unit, nat) DatabaseCache) (DataCacheKey 1) ''db/main'' = None"
    by (simp add: GetCachedInitialDbState_def newDatabaseCache_def)
  from h1 h2 h3
    initial_state_exact_name [where c = "newDatabaseCache :: (nat, unit, nat) DatabaseCache"
      and k = "DataCacheKey 1" and n = "''DB/main''" and n' = "''db/main''" and v = 9]
  show "?W U" by blast
qed

subsection \<open>Clear\<close>

text \<open>
  Claim C8. After \<^verbatim>\<open>Clear\<close> the three maps are empty: every lookup of a revision
  database or of an initial state misses, and \<^verbatim>\<open>CacheSessionVars\<close> does what it does
  on a new cache, returning \<^verbatim>\<open>true\<close> and leaving the fingerprint of the call as the
  only one when the transaction has a root.
\<close>

theorem clear_empties_all:
  fixes c :: "('h, 'd, 's) DatabaseCache"
  shows
  "revisionDbs (Clear c) = Some Map.empty \<and>
   initialDbStates (Clear c) = Some Map.empty \<and>
   sessionVars (Clear c) = Some Map.empty \<and>
   GetCachedRevisionDb (Clear c) rn qn = None \<and>
   GetCachedInitialDbState (Clear c) k n = None \<and>
   (case GetInitialRoot tx (dbState.dbName (dbState bs)) of
      None \<Rightarrow>
        CacheSessionVars (Clear c) bs tx = Inr (Clear c, True) \<and>
        CacheSessionVars (newDatabaseCache :: ('h, 'd, 's) DatabaseCache) bs tx =
          Inr (newDatabaseCache, True)
    | Some r \<Rightarrow>
        CacheSessionVars (Clear c) bs tx =
          Inr ((Clear c)\<lparr>sessionVars := Some [dbState.dbName (dbState bs) \<mapsto>
                  sessionVarCacheKey (DataCacheKey r) (branchState.head bs)]\<rparr>, True) \<and>
        CacheSessionVars (newDatabaseCache :: ('h, 'd, 's) DatabaseCache) bs tx =
          Inr (newDatabaseCache\<lparr>sessionVars := Some [dbState.dbName (dbState bs) \<mapsto>
                  sessionVarCacheKey (DataCacheKey r) (branchState.head bs)]\<rparr>, True))"
  by (simp add: Clear_def GetCachedRevisionDb_def GetCachedInitialDbState_def
      CacheSessionVars_def newDatabaseCache_def Let_def split: option.splits)

subsection \<open>The bound on the outer maps\<close>

lemma makeIfNil_Some: "makeIfNil (Some m) = m"
  by (simp add: makeIfNil_def)

lemma makeIfNil_None: "makeIfNil None = Map.empty"
  by (simp add: makeIfNil_def)

lemma holdsAtMost_empty: "holdsAtMost b (Some Map.empty)" "holdsAtMost b None"
  by (simp_all add: holdsAtMost_def makeIfNil_def len_def)

lemma holdsAtMost_insert:
  assumes "finite (dom (makeIfNil m))"
  shows "holdsAtMost (Suc maxCachedKeys) (Some ((flushIfOver (makeIfNil m))(k \<mapsto> v)))"
proof (cases "len (makeIfNil m) > maxCachedKeys")
  case True
  then show ?thesis
    by (simp add: holdsAtMost_def flushIfOver_full makeIfNil_Some len_def)
next
  case False
  have "card (insert k (dom (makeIfNil m))) \<le> Suc (card (dom (makeIfNil m)))"
    by (rule card_insert_le_m1) simp_all
  with False assms show ?thesis
    by (simp add: holdsAtMost_def flushIfOver_keep makeIfNil_Some len_def)
qed

lemma holdsAtMost_store:
  "holdsAtMost b m \<Longrightarrow> holdsAtMost (Suc maxCachedKeys) (Some ((flushIfOver (makeIfNil m))(k \<mapsto> v)))"
  by (rule holdsAtMost_insert) (simp add: holdsAtMost_def)

lemma sessionStep_bounded:
  "sessionBounded (Suc maxCachedKeys) c \<Longrightarrow> sessionBounded (Suc maxCachedKeys) (sessionStep U c call)"
  by (cases call)
     (auto simp: sessionBounded_def CacheTableIndexes_def CacheTable_def ClearTableCache_def
        CacheViews_def Let_def holdsAtMost_empty split: option.splits intro: holdsAtMost_store)

lemma sessionRun_bounded:
  "sessionBounded (Suc maxCachedKeys) c \<Longrightarrow> sessionBounded (Suc maxCachedKeys) (sessionRun U c calls)"
  by (induction calls arbitrary: c) (simp_all add: sessionStep_bounded)

lemma newSessionCache_bounded: "sessionBounded b newSessionCache"
  by (simp add: sessionBounded_def newSessionCache_def holdsAtMost_empty)

lemma databaseStep_bounded:
  "databaseBounded (Suc maxCachedKeys) c \<Longrightarrow> databaseStep U c call = Inr c' \<Longrightarrow>
   databaseBounded (Suc maxCachedKeys) c'"
  by (cases call)
     (auto simp: databaseBounded_def CacheRevisionDb_def CacheInitialDbState_def Clear_def
        CacheSessionVars_def Let_def holdsAtMost_empty
        split: option.splits sum.splits intro: holdsAtMost_store)

text \<open>
  No call panics on a cache whose fingerprint map is allocated, and the map stays
  allocated: a \<^verbatim>\<open>DatabaseCache\<close> made by \<^verbatim>\<open>newDatabaseCache\<close> never panics.
\<close>

lemma databaseStep_allocated:
  "sessionVars c \<noteq> None \<Longrightarrow> \<exists>c'. databaseStep U c call = Inr c' \<and> sessionVars c' \<noteq> None"
  by (cases call)
     (auto simp: CacheRevisionDb_def CacheInitialDbState_def Clear_def
        CacheSessionVars_def Let_def split: option.splits)

lemma databaseRun_allocated:
  "sessionVars c \<noteq> None \<Longrightarrow> \<exists>c'. databaseRun U c calls = Inr c' \<and> sessionVars c' \<noteq> None"
proof (induction calls arbitrary: c)
  case Nil
  then show ?case by simp
next
  case (Cons call calls)
  from databaseStep_allocated [OF Cons.prems, where call = call and U = U]
  obtain c1 where c1: "databaseStep U c call = Inr c1" "sessionVars c1 \<noteq> None"
    by blast
  from Cons.IH [OF c1(2)] c1(1) show ?case by simp
qed

lemma databaseRun_bounded:
  "databaseBounded (Suc maxCachedKeys) c \<Longrightarrow> databaseRun U c calls = Inr c' \<Longrightarrow>
   databaseBounded (Suc maxCachedKeys) c'"
proof (induction calls arbitrary: c)
  case Nil
  then show ?case by simp
next
  case (Cons call calls)
  then show ?case
    by (auto split: sum.splits dest: databaseStep_bounded)
qed

lemma newDatabaseCache_bounded: "databaseBounded b newDatabaseCache"
  by (simp add: databaseBounded_def newDatabaseCache_def holdsAtMost_empty)

subsection \<open>Filling a sub-cache\<close>

text \<open>
  Calls with distinct keys on a new cache, up to 65 of them: the outer map holds exactly
  these keys, and every stored value is found.
\<close>

lemma sessionRun_append: "sessionRun U c (xs @ ys) = sessionRun U (sessionRun U c xs) ys"
  by (induction xs arbitrary: c) simp_all

lemma dom_CacheTableIndexes:
  "dom (makeIfNil (indexes (CacheTableIndexes U c k n v))) =
     insert k (dom (flushIfOver (makeIfNil (indexes c))))"
  by (simp add: CacheTableIndexes_def Let_def makeIfNil_Some)

lemma dom_CacheTable:
  "dom (makeIfNil (tables (CacheTable U c k n v))) =
     insert k (dom (flushIfOver (makeIfNil (tables c))))"
  by (simp add: CacheTable_def Let_def makeIfNil_Some)

lemma dom_CacheViews:
  "dom (makeIfNil (views (CacheViews U c k vs))) =
     insert k (dom (flushIfOver (makeIfNil (views c))))"
  by (simp add: CacheViews_def Let_def makeIfNil_Some)

lemma len_keys: "distinct (map fst es) \<Longrightarrow> dom m = fst ` set es \<Longrightarrow> len m = length es"
  using distinct_card [of "map fst es"] by (simp add: len_def)

lemma dom_putViews: "dom (putViews U m vs) = dom m \<union> set (map (ToLower U) (map Name vs))"
  by (induction vs arbitrary: m) auto

lemma putViews_stored:
  "n \<in> set (map (ToLower U) (map Name vs)) \<Longrightarrow> putViews U m vs n \<noteq> None"
  using dom_putViews [where m = m and vs = vs and U = U] by blast

lemma indexCalls_keep:
  fixes new :: "('h, 'i, 't) SessionCache"
  defines "new \<equiv> newSessionCache"
  assumes "distinct (map fst es)" and "length es \<le> Suc maxCachedKeys"
  shows "dom (makeIfNil (indexes (sessionRun U new (map indexCall es)))) = fst ` set es \<and>
   (\<forall>(k, n, v) \<in> set es. GetTableIndexesCache U (sessionRun U new (map indexCall es)) k n = Some v)"
  using assms(2,3)
proof (induction es rule: rev_induct)
  case Nil
  then show ?case by (simp add: new_def newSessionCache_def makeIfNil_None)
next
  case (snoc e es)
  obtain k n v where e: "e = (k, n, v)" by (cases e)
  let ?c = "sessionRun U new (map indexCall es)"
  from snoc.prems have d: "distinct (map fst es)" and l: "length es \<le> maxCachedKeys"
    and new: "k \<notin> fst ` set es"
    by (simp_all add: e)
  from snoc.IH d l have dom: "dom (makeIfNil (indexes ?c)) = fst ` set es"
    and old: "\<forall>(k', n', v') \<in> set es. GetTableIndexesCache U ?c k' n' = Some v'"
    by simp_all
  from len_keys [OF d dom] l have room: "\<not> len (makeIfNil (indexes ?c)) > maxCachedKeys"
    by simp
  have run: "sessionRun U new (map indexCall (es @ [e])) = CacheTableIndexes U ?c k n v"
    by (simp add: sessionRun_append e)
  have "dom (makeIfNil (indexes (CacheTableIndexes U ?c k n v))) = fst ` set (es @ [e])"
    by (simp add: dom_CacheTableIndexes flushIfOver_keep [OF room] dom e)
  moreover have "GetTableIndexesCache U (CacheTableIndexes U ?c k n v) k' n' = Some v'"
    if "(k', n', v') \<in> set (es @ [e])" for k' n' v'
  proof (cases "(k', n', v') = e")
    case True
    then show ?thesis by (simp add: e get_cache_indexes)
  next
    case False
    with that have mem: "(k', n', v') \<in> set es" by simp
    with new have "k' \<noteq> k" by force
    with frame_indexes [where c = ?c and k = k' and n = n' and v = v' and U = U
        and call = "CallCacheTableIndexes k n v"] old mem room
    show ?thesis by auto
  qed
  ultimately show ?case unfolding run by blast
qed

lemma tableCalls_keep:
  fixes new :: "('h, 'i, 't) SessionCache"
  defines "new \<equiv> newSessionCache"
  assumes "distinct (map fst es)" and "length es \<le> Suc maxCachedKeys"
  shows "dom (makeIfNil (tables (sessionRun U new (map tableCall es)))) = fst ` set es \<and>
   (\<forall>(k, n, v) \<in> set es. GetCachedTable U (sessionRun U new (map tableCall es)) k n = Some v)"
  using assms(2,3)
proof (induction es rule: rev_induct)
  case Nil
  then show ?case by (simp add: new_def newSessionCache_def makeIfNil_None)
next
  case (snoc e es)
  obtain k n v where e: "e = (k, n, v)" by (cases e)
  let ?c = "sessionRun U new (map tableCall es)"
  from snoc.prems have d: "distinct (map fst es)" and l: "length es \<le> maxCachedKeys"
    and new: "k \<notin> fst ` set es"
    by (simp_all add: e)
  from snoc.IH d l have dom: "dom (makeIfNil (tables ?c)) = fst ` set es"
    and old: "\<forall>(k', n', v') \<in> set es. GetCachedTable U ?c k' n' = Some v'"
    by simp_all
  from len_keys [OF d dom] l have room: "\<not> len (makeIfNil (tables ?c)) > maxCachedKeys"
    by simp
  have run: "sessionRun U new (map tableCall (es @ [e])) = CacheTable U ?c k n v"
    by (simp add: sessionRun_append e)
  have "dom (makeIfNil (tables (CacheTable U ?c k n v))) = fst ` set (es @ [e])"
    by (simp add: dom_CacheTable flushIfOver_keep [OF room] dom e)
  moreover have "GetCachedTable U (CacheTable U ?c k n v) k' n' = Some v'"
    if "(k', n', v') \<in> set (es @ [e])" for k' n' v'
  proof (cases "(k', n', v') = e")
    case True
    then show ?thesis by (simp add: e get_cache_table)
  next
    case False
    with that have mem: "(k', n', v') \<in> set es" by simp
    with new have "k' \<noteq> k" by force
    with frame_tables [where c = ?c and k = k' and n = n' and v = v' and U = U
        and call = "CallCacheTable k n v"] old mem room
    show ?thesis by auto
  qed
  ultimately show ?case unfolding run by blast
qed

lemma ViewsCached_dom: "ViewsCached c k = (k \<in> dom (makeIfNil (views c)))"
  by (auto simp: ViewsCached_def makeIfNil_def split: option.splits)

lemma viewsCalls_keep:
  fixes new :: "('h, 'i, 't) SessionCache"
  defines "new \<equiv> newSessionCache"
  assumes "distinct (map fst ws)" and "length ws \<le> Suc maxCachedKeys"
  shows "dom (makeIfNil (views (sessionRun U new (map viewsCall ws)))) = fst ` set ws \<and>
   (\<forall>(k, vs) \<in> set ws. \<forall>v \<in> set vs.
      GetCachedViewDefinition U (sessionRun U new (map viewsCall ws)) k (Name v) \<noteq> None)"
  using assms(2,3)
proof (induction ws rule: rev_induct)
  case Nil
  then show ?case by (simp add: new_def newSessionCache_def makeIfNil_None)
next
  case (snoc w ws)
  obtain k vs where w: "w = (k, vs)" by (cases w)
  let ?c = "sessionRun U new (map viewsCall ws)"
  from snoc.prems have d: "distinct (map fst ws)" and l: "length ws \<le> maxCachedKeys"
    and new: "k \<notin> fst ` set ws"
    by (simp_all add: w)
  from snoc.IH d l have dom: "dom (makeIfNil (views ?c)) = fst ` set ws"
    and old: "\<forall>(k', vs') \<in> set ws. \<forall>v \<in> set vs'. GetCachedViewDefinition U ?c k' (Name v) \<noteq> None"
    by simp_all
  from len_keys [OF d dom] l have room: "\<not> len (makeIfNil (views ?c)) > maxCachedKeys"
    by simp
  have run: "sessionRun U new (map viewsCall (ws @ [w])) = CacheViews U ?c k vs"
    by (simp add: sessionRun_append w)
  have "dom (makeIfNil (views (CacheViews U ?c k vs))) = fst ` set (ws @ [w])"
    by (simp add: dom_CacheViews flushIfOver_keep [OF room] dom w)
  moreover have "GetCachedViewDefinition U (CacheViews U ?c k vs) k' (Name v) \<noteq> None"
    if "(k', vs') \<in> set (ws @ [w])" and "v \<in> set vs'" for k' vs' v
  proof (cases "(k', vs') = w")
    case True
    with that(2) have "ToLower U (Name v) \<in> set (map (ToLower U) (map Name vs))"
      by (auto simp: w)
    then have "putViews U m vs (ToLower U (Name v)) \<noteq> None" for m
      by (rule putViews_stored)
    with True show ?thesis
      by (simp add: w GetCachedViewDefinition_def CacheViews_def Let_def)
  next
    case False
    with that have mem: "(k', vs') \<in> set ws" by simp
    with new have ne: "k' \<noteq> k" by force
    from old mem that(2) obtain v' where "GetCachedViewDefinition U ?c k' (Name v) = Some v'"
      by fastforce
    with frame_views [where c = ?c and k = k' and n = "Name v" and v = v' and U = U
        and call = "CallCacheViews k vs"] ne room
    show ?thesis by auto
  qed
  ultimately show ?case unfolding run by blast
qed

lemma indexes_flush:
  "len (makeIfNil (indexes c)) > maxCachedKeys \<Longrightarrow>
   indexes (CacheTableIndexes U c k n v) = Some [k \<mapsto> [ToLower U n \<mapsto> v]]"
  by (simp add: CacheTableIndexes_def Let_def flushIfOver_full innerOrNew_def)

lemma tables_flush:
  "len (makeIfNil (tables c)) > maxCachedKeys \<Longrightarrow>
   tables (CacheTable U c k n v) = Some [k \<mapsto> [ToLower U n \<mapsto> v]]"
  by (simp add: CacheTable_def Let_def flushIfOver_full innerOrNew_def)

lemma views_flush:
  "len (makeIfNil (views c)) > maxCachedKeys \<Longrightarrow>
   views (CacheViews U c k vs) = Some [k \<mapsto> putViews U Map.empty vs]"
  by (simp add: CacheViews_def Let_def flushIfOver_full innerOrNew_def)

lemma indexCalls_len:
  fixes new :: "('h, 'i, 't) SessionCache"
  defines "new \<equiv> newSessionCache"
  assumes "distinct (map fst es)" and "length es \<le> Suc maxCachedKeys"
  shows "len (makeIfNil (indexes (sessionRun U new (map indexCall es)))) = length es"
  unfolding new_def
  by (rule len_keys [OF assms(2)], rule conjunct1, rule indexCalls_keep [OF assms(2,3)])

lemma tableCalls_len:
  fixes new :: "('h, 'i, 't) SessionCache"
  defines "new \<equiv> newSessionCache"
  assumes "distinct (map fst es)" and "length es \<le> Suc maxCachedKeys"
  shows "len (makeIfNil (tables (sessionRun U new (map tableCall es)))) = length es"
  unfolding new_def
  by (rule len_keys [OF assms(2)], rule conjunct1, rule tableCalls_keep [OF assms(2,3)])

lemma viewsCalls_len:
  fixes new :: "('h, 'i, 't) SessionCache"
  defines "new \<equiv> newSessionCache"
  assumes "distinct (map fst es)" and "length es \<le> Suc maxCachedKeys"
  shows "len (makeIfNil (views (sessionRun U new (map viewsCall es)))) = length es"
  unfolding new_def
  by (rule len_keys [OF assms(2)], rule conjunct1, rule viewsCalls_keep [OF assms(2,3)])

lemma indexCalls_flush:
  fixes new :: "('h, 'i, 't) SessionCache"
  defines "new \<equiv> newSessionCache"
  assumes "distinct (map fst es)" and "length es = Suc maxCachedKeys"
  shows "indexes (sessionRun U new (map indexCall (es @ [(k, n, v)]))) = Some [k \<mapsto> [ToLower U n \<mapsto> v]]"
proof -
  have "len (makeIfNil (indexes (sessionRun U new (map indexCall es)))) = length es"
    unfolding new_def by (rule indexCalls_len) (simp_all add: assms(2,3))
  with assms(3) show ?thesis
    by (simp add: sessionRun_append indexes_flush)
qed

lemma tableCalls_flush:
  fixes new :: "('h, 'i, 't) SessionCache"
  defines "new \<equiv> newSessionCache"
  assumes "distinct (map fst es)" and "length es = Suc maxCachedKeys"
  shows "tables (sessionRun U new (map tableCall (es @ [(k, n, v)]))) = Some [k \<mapsto> [ToLower U n \<mapsto> v]]"
proof -
  have "len (makeIfNil (tables (sessionRun U new (map tableCall es)))) = length es"
    unfolding new_def by (rule tableCalls_len) (simp_all add: assms(2,3))
  with assms(3) show ?thesis
    by (simp add: sessionRun_append tables_flush)
qed

lemma viewsCalls_flush:
  fixes new :: "('h, 'i, 't) SessionCache"
  defines "new \<equiv> newSessionCache"
  assumes "distinct (map fst es)" and "length es = Suc maxCachedKeys"
  shows "views (sessionRun U new (map viewsCall (es @ [(k, vs)]))) = Some [k \<mapsto> putViews U Map.empty vs]"
proof -
  have "len (makeIfNil (views (sessionRun U new (map viewsCall es)))) = length es"
    unfolding new_def by (rule viewsCalls_len) (simp_all add: assms(2,3))
  with assms(3) show ?thesis
    by (simp add: sessionRun_append views_flush)
qed

lemma dom_CacheRevisionDb:
  "dom (makeIfNil (revisionDbs (CacheRevisionDb U c db))) =
     insert (keyOf U db) (dom (flushIfOver (makeIfNil (revisionDbs c))))"
  by (simp add: CacheRevisionDb_def Let_def makeIfNil_Some keyOf_def)

lemma dom_CacheInitialDbState:
  "dom (makeIfNil (initialDbStates (CacheInitialDbState c k n v))) =
     insert k (dom (flushIfOver (makeIfNil (initialDbStates c))))"
  by (simp add: CacheInitialDbState_def Let_def makeIfNil_Some)

lemma databaseRun_append:
  "databaseRun U c (xs @ ys) =
     (case databaseRun U c xs of Inl e \<Rightarrow> Inl e | Inr c' \<Rightarrow> databaseRun U c' ys)"
  by (induction xs arbitrary: c) (simp_all split: sum.splits)

lemma len_keys_image:
  "distinct (map f xs) \<Longrightarrow> dom m = f ` set xs \<Longrightarrow> len m = length xs"
  using distinct_card [of "map f xs"] by (simp add: len_def)

lemma revisionCalls_keys:
  fixes new :: "('h, 'd, 's) DatabaseCache"
  defines "new \<equiv> newDatabaseCache"
  assumes "distinct (map (keyOf U) dbs)" and "length dbs \<le> Suc maxCachedKeys"
  shows "\<exists>c. databaseRun U new (map CallCacheRevisionDb dbs) = Inr c \<and>
             dom (makeIfNil (revisionDbs c)) = keyOf U ` set dbs"
  using assms(2,3)
proof (induction dbs rule: rev_induct)
  case Nil
  then show ?case by (simp add: new_def newDatabaseCache_def makeIfNil_None)
next
  case (snoc db dbs)
  from snoc.prems have d: "distinct (map (keyOf U) dbs)" and l: "length dbs \<le> maxCachedKeys"
    by simp_all
  from snoc.IH d l obtain c where run: "databaseRun U new (map CallCacheRevisionDb dbs) = Inr c"
    and dom: "dom (makeIfNil (revisionDbs c)) = keyOf U ` set dbs"
    by auto
  from len_keys_image [OF d dom] l have room: "\<not> len (makeIfNil (revisionDbs c)) > maxCachedKeys"
    by simp
  have "databaseRun U new (map CallCacheRevisionDb (dbs @ [db])) = Inr (CacheRevisionDb U c db)"
    by (simp add: databaseRun_append run)
  moreover have "dom (makeIfNil (revisionDbs (CacheRevisionDb U c db))) = keyOf U ` set (dbs @ [db])"
    by (simp add: dom_CacheRevisionDb flushIfOver_keep [OF room] dom)
  ultimately show ?case by blast
qed

lemma stateCalls_keys:
  fixes new :: "('h, 'd, 's) DatabaseCache"
  defines "new \<equiv> newDatabaseCache"
  assumes "distinct (map fst es)" and "length es \<le> Suc maxCachedKeys"
  shows "\<exists>c. databaseRun U new (map stateCall es) = Inr c \<and>
             dom (makeIfNil (initialDbStates c)) = fst ` set es"
  using assms(2,3)
proof (induction es rule: rev_induct)
  case Nil
  then show ?case by (simp add: new_def newDatabaseCache_def makeIfNil_None)
next
  case (snoc e es)
  obtain k n v where e: "e = (k, n, v)" by (cases e)
  from snoc.prems have d: "distinct (map fst es)" and l: "length es \<le> maxCachedKeys"
    by simp_all
  from snoc.IH d l obtain c where run: "databaseRun U new (map stateCall es) = Inr c"
    and dom: "dom (makeIfNil (initialDbStates c)) = fst ` set es"
    by auto
  from len_keys [OF d dom] l have room: "\<not> len (makeIfNil (initialDbStates c)) > maxCachedKeys"
    by simp
  have "databaseRun U new (map stateCall (es @ [e])) = Inr (CacheInitialDbState c k n v)"
    by (simp add: databaseRun_append run e)
  moreover have "dom (makeIfNil (initialDbStates (CacheInitialDbState c k n v))) = fst ` set (es @ [e])"
    by (simp add: dom_CacheInitialDbState flushIfOver_keep [OF room] dom e)
  ultimately show ?case by blast
qed

lemma keys_indexEntry: "map fst (map indexEntry xs) = map DataCacheKey xs"
  by (simp add: indexEntry_def)

lemma keys_tableEntry: "map fst (map tableEntry xs) = map DataCacheKey xs"
  by (simp add: tableEntry_def)

lemma keys_viewsEntry: "map fst (map viewsEntry xs) = map DataCacheKey xs"
  by (simp add: viewsEntry_def)

lemma keys_stateEntry: "map fst (map stateEntry xs) = map DataCacheKey xs"
  by (simp add: stateEntry_def)

lemma distinct_keys: "distinct (map DataCacheKey xs) = distinct xs"
  by (simp add: distinct_map inj_on_def)

lemma distinct_dbEntry: "distinct (map (keyOf U) (map dbEntry xs)) = distinct xs"
proof -
  have "inj_on (keyOf U \<circ> dbEntry) (set xs)"
  proof (rule inj_onI)
    fix i j
    assume "(keyOf U \<circ> dbEntry) i = (keyOf U \<circ> dbEntry) j"
    then have "replicate i (CHR ''x'') = replicate j (CHR ''x'')"
      by (simp add: keyOf_def dbEntry_def)
    then have "length (replicate i (CHR ''x'')) = length (replicate j (CHR ''x''))"
      by (rule arg_cong)
    then show "i = j" by simp
  qed
  then show ?thesis by (simp add: distinct_map)
qed

text \<open>
  Claim C2, as stated, fails. After 65 calls with the 65 distinct keys 1 to 65 on a new
  cache, the key stored first is still found in each sub-cache: the 65th call runs on
  a map of 64 keys, and 64 is not more than \<open>maxCachedKeys\<close>.
\<close>

theorem all_found_after_65th_key:
  "GetTableIndexesCache sampleUnicodeLower
     (sessionRun sampleUnicodeLower (newSessionCache :: (nat, nat, nat) SessionCache)
        (map indexCall (map indexEntry [1..<66])))
     (DataCacheKey 1) ''t'' = Some [] \<and>
   GetCachedTable sampleUnicodeLower
     (sessionRun sampleUnicodeLower (newSessionCache :: (nat, nat, nat) SessionCache)
        (map tableCall (map tableEntry [1..<66])))
     (DataCacheKey 1) ''t'' = Some 1 \<and>
   ViewsCached
     (sessionRun sampleUnicodeLower (newSessionCache :: (nat, nat, nat) SessionCache)
        (map viewsCall (map viewsEntry [1..<66])))
     (DataCacheKey 1)"
proof -
  have sixty_five: "Suc maxCachedKeys = 65"
    by (simp add: maxCachedKeys_def)
  have d: "distinct (map fst (map (indexEntry :: nat \<Rightarrow> nat DataCacheKey \<times> string \<times> nat list) [1..<66]))"
    "distinct (map fst (map tableEntry [1..<66]))"
    "distinct (map fst (map viewsEntry [1..<66]))"
    by (simp_all only: keys_indexEntry keys_tableEntry keys_viewsEntry distinct_keys distinct_upt)
  have l: "length (map (indexEntry :: nat \<Rightarrow> nat DataCacheKey \<times> string \<times> nat list) [1..<66])
      \<le> Suc maxCachedKeys"
    "length (map tableEntry [1..<66]) \<le> Suc maxCachedKeys"
    "length (map viewsEntry [1..<66]) \<le> Suc maxCachedKeys"
    by (simp_all add: sixty_five)
  have m: "(DataCacheKey 1, ''t'', []) \<in> set (map (indexEntry :: nat \<Rightarrow> nat DataCacheKey \<times> string \<times> nat list) [1..<66])"
    "(DataCacheKey 1, ''t'', 1) \<in> set (map tableEntry [1..<66])"
    "DataCacheKey 1 \<in> fst ` set (map viewsEntry [1..<66])"
    by (auto simp: indexEntry_def tableEntry_def viewsEntry_def image_iff)
  from indexCalls_keep [OF d(1) l(1), where U = sampleUnicodeLower] m(1)
  have "GetTableIndexesCache sampleUnicodeLower
     (sessionRun sampleUnicodeLower (newSessionCache :: (nat, nat, nat) SessionCache)
        (map indexCall (map indexEntry [1..<66])))
     (DataCacheKey 1) ''t'' = Some []"
    by blast
  moreover from tableCalls_keep [OF d(2) l(2), where U = sampleUnicodeLower] m(2)
  have "GetCachedTable sampleUnicodeLower
     (sessionRun sampleUnicodeLower (newSessionCache :: (nat, nat, nat) SessionCache)
        (map tableCall (map tableEntry [1..<66])))
     (DataCacheKey 1) ''t'' = Some 1"
    by blast
  moreover from viewsCalls_keep [OF d(3) l(3), where U = sampleUnicodeLower] m(3)
  have "ViewsCached
     (sessionRun sampleUnicodeLower (newSessionCache :: (nat, nat, nat) SessionCache)
        (map viewsCall (map viewsEntry [1..<66])))
     (DataCacheKey 1)"
    unfolding ViewsCached_dom by blast
  ultimately show ?thesis by blast
qed

text \<open>
  Claim C2, amended. A caching call on a sub-cache whose outer map holds more than 64
  keys deletes them all first, so that the entry of the call is the only one left. On a
  new cache that is the 66th call with a distinct key: after 65 calls with distinct
  keys every one of them is still found, and after one more call with a further key
  none of the 65 is found, under any name, and the new entry is.
\<close>

theorem flush_at_66th_key:
  fixes new c :: "('h, 'i, 't) SessionCache"
  defines "new \<equiv> newSessionCache"
  shows
  "(len (makeIfNil (indexes c)) > maxCachedKeys \<longrightarrow>
      indexes (CacheTableIndexes U c k n idxs) = Some [k \<mapsto> [ToLower U n \<mapsto> idxs]]) \<and>
   (len (makeIfNil (tables c)) > maxCachedKeys \<longrightarrow>
      tables (CacheTable U c k n table) = Some [k \<mapsto> [ToLower U n \<mapsto> table]]) \<and>
   (len (makeIfNil (views c)) > maxCachedKeys \<longrightarrow>
      views (CacheViews U c k vs) = Some [k \<mapsto> putViews U Map.empty vs]) \<and>
   (distinct (map fst es) \<and> length es = 65 \<and> k \<notin> fst ` set es \<longrightarrow>
      (\<forall>(k', n', v') \<in> set es.
         GetTableIndexesCache U (sessionRun U new (map indexCall es)) k' n' = Some v' \<and>
         GetTableIndexesCache U (sessionRun U new (map indexCall (es @ [(k, n, idxs)]))) k' n'' = None) \<and>
      GetTableIndexesCache U (sessionRun U new (map indexCall (es @ [(k, n, idxs)]))) k n = Some idxs) \<and>
   (distinct (map fst ts) \<and> length ts = 65 \<and> k \<notin> fst ` set ts \<longrightarrow>
      (\<forall>(k', n', v') \<in> set ts.
         GetCachedTable U (sessionRun U new (map tableCall ts)) k' n' = Some v' \<and>
         GetCachedTable U (sessionRun U new (map tableCall (ts @ [(k, n, table)]))) k' n'' = None) \<and>
      GetCachedTable U (sessionRun U new (map tableCall (ts @ [(k, n, table)]))) k n = Some table) \<and>
   (distinct (map fst ws) \<and> length ws = 65 \<and> k \<notin> fst ` set ws \<longrightarrow>
      (\<forall>(k', vs') \<in> set ws.
         ViewsCached (sessionRun U new (map viewsCall ws)) k' \<and>
         (\<forall>v \<in> set vs'. GetCachedViewDefinition U (sessionRun U new (map viewsCall ws)) k' (Name v) \<noteq> None) \<and>
         \<not> ViewsCached (sessionRun U new (map viewsCall (ws @ [(k, vs)]))) k' \<and>
         GetCachedViewDefinition U (sessionRun U new (map viewsCall (ws @ [(k, vs)]))) k' n'' = None) \<and>
      ViewsCached (sessionRun U new (map viewsCall (ws @ [(k, vs)]))) k)"
proof -
  have sixty_five: "Suc maxCachedKeys = 65"
    by (simp add: maxCachedKeys_def)
  have idx: "(\<forall>(k', n', v') \<in> set es.
         GetTableIndexesCache U (sessionRun U new (map indexCall es)) k' n' = Some v' \<and>
         GetTableIndexesCache U (sessionRun U new (map indexCall (es @ [(k, n, idxs)]))) k' n'' = None) \<and>
      GetTableIndexesCache U (sessionRun U new (map indexCall (es @ [(k, n, idxs)]))) k n = Some idxs"
    if "distinct (map fst es)" "length es = 65" "k \<notin> fst ` set es"
  proof -
    from that have l: "length es = Suc maxCachedKeys" "length es \<le> Suc maxCachedKeys"
      by (simp_all add: sixty_five)
    have keep: "\<forall>(k', n', v') \<in> set es.
        GetTableIndexesCache U (sessionRun U new (map indexCall es)) k' n' = Some v'"
      unfolding new_def by (rule conjunct2, rule indexCalls_keep [OF that(1) l(2)])
    have fl: "indexes (sessionRun U new (map indexCall (es @ [(k, n, idxs)])))
        = Some [k \<mapsto> [ToLower U n \<mapsto> idxs]]"
      unfolding new_def by (rule indexCalls_flush [OF that(1) l(1)])
    have "GetTableIndexesCache U (sessionRun U new (map indexCall (es @ [(k, n, idxs)]))) k' n'' = None"
      if "(k', n', v') \<in> set es" for k' n' v'
    proof -
      from that \<open>k \<notin> fst ` set es\<close> have "k' \<noteq> k" by force
      then show ?thesis unfolding GetTableIndexesCache_def fl by simp
    qed
    moreover have "GetTableIndexesCache U (sessionRun U new (map indexCall (es @ [(k, n, idxs)]))) k n
        = Some idxs"
      unfolding GetTableIndexesCache_def fl by simp
    ultimately show ?thesis using keep by blast
  qed
  have tbl: "(\<forall>(k', n', v') \<in> set ts.
         GetCachedTable U (sessionRun U new (map tableCall ts)) k' n' = Some v' \<and>
         GetCachedTable U (sessionRun U new (map tableCall (ts @ [(k, n, table)]))) k' n'' = None) \<and>
      GetCachedTable U (sessionRun U new (map tableCall (ts @ [(k, n, table)]))) k n = Some table"
    if "distinct (map fst ts)" "length ts = 65" "k \<notin> fst ` set ts"
  proof -
    from that have l: "length ts = Suc maxCachedKeys" "length ts \<le> Suc maxCachedKeys"
      by (simp_all add: sixty_five)
    have keep: "\<forall>(k', n', v') \<in> set ts.
        GetCachedTable U (sessionRun U new (map tableCall ts)) k' n' = Some v'"
      unfolding new_def by (rule conjunct2, rule tableCalls_keep [OF that(1) l(2)])
    have fl: "tables (sessionRun U new (map tableCall (ts @ [(k, n, table)])))
        = Some [k \<mapsto> [ToLower U n \<mapsto> table]]"
      unfolding new_def by (rule tableCalls_flush [OF that(1) l(1)])
    have "GetCachedTable U (sessionRun U new (map tableCall (ts @ [(k, n, table)]))) k' n'' = None"
      if "(k', n', v') \<in> set ts" for k' n' v'
    proof -
      from that \<open>k \<notin> fst ` set ts\<close> have "k' \<noteq> k" by force
      then show ?thesis unfolding GetCachedTable_def fl by simp
    qed
    moreover have "GetCachedTable U (sessionRun U new (map tableCall (ts @ [(k, n, table)]))) k n
        = Some table"
      unfolding GetCachedTable_def fl by simp
    ultimately show ?thesis using keep by blast
  qed
  have vw: "(\<forall>(k', vs') \<in> set ws.
         ViewsCached (sessionRun U new (map viewsCall ws)) k' \<and>
         (\<forall>v \<in> set vs'. GetCachedViewDefinition U (sessionRun U new (map viewsCall ws)) k' (Name v) \<noteq> None) \<and>
         \<not> ViewsCached (sessionRun U new (map viewsCall (ws @ [(k, vs)]))) k' \<and>
         GetCachedViewDefinition U (sessionRun U new (map viewsCall (ws @ [(k, vs)]))) k' n'' = None) \<and>
      ViewsCached (sessionRun U new (map viewsCall (ws @ [(k, vs)]))) k"
    if "distinct (map fst ws)" "length ws = 65" "k \<notin> fst ` set ws"
  proof -
    from that have l: "length ws = Suc maxCachedKeys" "length ws \<le> Suc maxCachedKeys"
      by (simp_all add: sixty_five)
    have dom: "dom (makeIfNil (views (sessionRun U new (map viewsCall ws)))) = fst ` set ws"
      unfolding new_def by (rule conjunct1, rule viewsCalls_keep [OF that(1) l(2)])
    have keep: "\<forall>(k', vs') \<in> set ws. \<forall>v \<in> set vs'.
        GetCachedViewDefinition U (sessionRun U new (map viewsCall ws)) k' (Name v) \<noteq> None"
      unfolding new_def by (rule conjunct2, rule viewsCalls_keep [OF that(1) l(2)])
    have fl: "views (sessionRun U new (map viewsCall (ws @ [(k, vs)])))
        = Some [k \<mapsto> putViews U Map.empty vs]"
      unfolding new_def by (rule viewsCalls_flush [OF that(1) l(1)])
    have "ViewsCached (sessionRun U new (map viewsCall ws)) k' \<and>
        \<not> ViewsCached (sessionRun U new (map viewsCall (ws @ [(k, vs)]))) k' \<and>
        GetCachedViewDefinition U (sessionRun U new (map viewsCall (ws @ [(k, vs)]))) k' n'' = None"
      if "(k', vs') \<in> set ws" for k' vs'
    proof -
      from that \<open>k \<notin> fst ` set ws\<close> have "k' \<noteq> k" by force
      moreover from that have "k' \<in> fst ` set ws" by force
      ultimately show ?thesis
        unfolding ViewsCached_dom dom GetCachedViewDefinition_def fl makeIfNil_Some by simp
    qed
    moreover have "ViewsCached (sessionRun U new (map viewsCall (ws @ [(k, vs)]))) k"
      unfolding ViewsCached_def fl by simp
    ultimately show ?thesis using keep by blast
  qed
  have a1: "len (makeIfNil (indexes c)) > maxCachedKeys \<longrightarrow>
      indexes (CacheTableIndexes U c k n idxs) = Some [k \<mapsto> [ToLower U n \<mapsto> idxs]]"
    by (simp add: indexes_flush)
  have a2: "len (makeIfNil (tables c)) > maxCachedKeys \<longrightarrow>
      tables (CacheTable U c k n table) = Some [k \<mapsto> [ToLower U n \<mapsto> table]]"
    by (simp add: tables_flush)
  have a3: "len (makeIfNil (views c)) > maxCachedKeys \<longrightarrow>
      views (CacheViews U c k vs) = Some [k \<mapsto> putViews U Map.empty vs]"
    by (simp add: views_flush)
  show ?thesis
    by (intro conjI impI a1 [rule_format] a2 [rule_format] a3 [rule_format]; (elim conjE)?;
        (rule idx [THEN conjunct1] idx [THEN conjunct2] tbl [THEN conjunct1]
           tbl [THEN conjunct2] vw [THEN conjunct1] vw [THEN conjunct2]; assumption)?)
qed

theorem flush_at_66th_key_witness:
  "\<forall>U.
   maxCachedKeys < len (makeIfNil (indexes
      (sessionRun U (newSessionCache :: (nat, nat, nat) SessionCache)
         (map indexCall (map indexEntry [1..<66]))))) \<and>
   indexes (CacheTableIndexes U
      (sessionRun U (newSessionCache :: (nat, nat, nat) SessionCache)
         (map indexCall (map indexEntry [1..<66])))
      (DataCacheKey 66) ''T'' [5])
     = Some [DataCacheKey 66 \<mapsto> [ToLower U ''T'' \<mapsto> [5]]] \<and>
   maxCachedKeys < len (makeIfNil (tables
      (sessionRun U (newSessionCache :: (nat, nat, nat) SessionCache)
         (map tableCall (map tableEntry [1..<66]))))) \<and>
   tables (CacheTable U
      (sessionRun U (newSessionCache :: (nat, nat, nat) SessionCache)
         (map tableCall (map tableEntry [1..<66])))
      (DataCacheKey 66) ''T'' 5)
     = Some [DataCacheKey 66 \<mapsto> [ToLower U ''T'' \<mapsto> 5]] \<and>
   maxCachedKeys < len (makeIfNil (views
      (sessionRun U (newSessionCache :: (nat, nat, nat) SessionCache)
         (map viewsCall (map viewsEntry [1..<66]))))) \<and>
   views (CacheViews U
      (sessionRun U (newSessionCache :: (nat, nat, nat) SessionCache)
         (map viewsCall (map viewsEntry [1..<66])))
      (DataCacheKey 66) [])
     = Some [DataCacheKey 66 \<mapsto> putViews U Map.empty []] \<and>
   distinct (map fst (map (indexEntry :: nat \<Rightarrow> nat DataCacheKey \<times> string \<times> nat list) [1..<66])) \<and>
   length (map (indexEntry :: nat \<Rightarrow> nat DataCacheKey \<times> string \<times> nat list) [1..<66]) = 65 \<and>
   DataCacheKey 66 \<notin>
     fst ` set (map (indexEntry :: nat \<Rightarrow> nat DataCacheKey \<times> string \<times> nat list) [1..<66]) \<and>
   GetTableIndexesCache U
     (sessionRun U (newSessionCache :: (nat, nat, nat) SessionCache)
        (map indexCall (map indexEntry [1..<66])))
     (DataCacheKey 1) ''t'' = Some [] \<and>
   GetTableIndexesCache U
     (sessionRun U (newSessionCache :: (nat, nat, nat) SessionCache)
        (map indexCall (map indexEntry [1..<66] @ [(DataCacheKey 66, ''T'', [5])])))
     (DataCacheKey 1) ''t'' = None \<and>
   GetTableIndexesCache U
     (sessionRun U (newSessionCache :: (nat, nat, nat) SessionCache)
        (map indexCall (map indexEntry [1..<66] @ [(DataCacheKey 66, ''T'', [5])])))
     (DataCacheKey 66) ''T'' = Some [5] \<and>
   distinct (map fst (map tableEntry [1..<66])) \<and>
   length (map tableEntry [1..<66]) = 65 \<and>
   DataCacheKey 66 \<notin> fst ` set (map tableEntry [1..<66]) \<and>
   GetCachedTable U
     (sessionRun U (newSessionCache :: (nat, nat, nat) SessionCache)
        (map tableCall (map tableEntry [1..<66])))
     (DataCacheKey 1) ''t'' = Some 1 \<and>
   GetCachedTable U
     (sessionRun U (newSessionCache :: (nat, nat, nat) SessionCache)
        (map tableCall (map tableEntry [1..<66] @ [(DataCacheKey 66, ''T'', 5)])))
     (DataCacheKey 1) ''t'' = None \<and>
   GetCachedTable U
     (sessionRun U (newSessionCache :: (nat, nat, nat) SessionCache)
        (map tableCall (map tableEntry [1..<66] @ [(DataCacheKey 66, ''T'', 5)])))
     (DataCacheKey 66) ''T'' = Some 5 \<and>
   distinct (map fst (map viewsEntry [1..<66])) \<and>
   length (map viewsEntry [1..<66]) = 65 \<and>
   DataCacheKey 66 \<notin> fst ` set (map viewsEntry [1..<66]) \<and>
   ViewsCached
     (sessionRun U (newSessionCache :: (nat, nat, nat) SessionCache)
        (map viewsCall (map viewsEntry [1..<66])))
     (DataCacheKey 1) \<and>
   \<not> ViewsCached
     (sessionRun U (newSessionCache :: (nat, nat, nat) SessionCache)
        (map viewsCall (map viewsEntry [1..<66] @ [(DataCacheKey 66, [])])))
     (DataCacheKey 1) \<and>
   GetCachedViewDefinition U
     (sessionRun U (newSessionCache :: (nat, nat, nat) SessionCache)
        (map viewsCall (map viewsEntry [1..<66] @ [(DataCacheKey 66, [])])))
     (DataCacheKey 1) ''v'' = None \<and>
   ViewsCached
     (sessionRun U (newSessionCache :: (nat, nat, nat) SessionCache)
        (map viewsCall (map viewsEntry [1..<66] @ [(DataCacheKey 66, [])])))
     (DataCacheKey 66)"
  (is "\<forall>U. ?W U")
proof (rule allI)
  fix U :: unicodeLower
  have sixty_five: "Suc maxCachedKeys = 65"
    by (simp add: maxCachedKeys_def)
  have d: "distinct (map fst (map (indexEntry :: nat \<Rightarrow> nat DataCacheKey \<times> string \<times> nat list) [1..<66]))"
    "distinct (map fst (map tableEntry [1..<66]))"
    "distinct (map fst (map viewsEntry [1..<66]))"
    by (simp_all only: keys_indexEntry keys_tableEntry keys_viewsEntry distinct_keys distinct_upt)
  have l: "length (map (indexEntry :: nat \<Rightarrow> nat DataCacheKey \<times> string \<times> nat list) [1..<66]) = 65"
    "length (map tableEntry [1..<66]) = 65"
    "length (map viewsEntry [1..<66]) = 65"
    by simp_all
  have n: "DataCacheKey 66 \<notin>
     fst ` set (map (indexEntry :: nat \<Rightarrow> nat DataCacheKey \<times> string \<times> nat list) [1..<66])"
    "DataCacheKey 66 \<notin> fst ` set (map tableEntry [1..<66])"
    "DataCacheKey 66 \<notin> fst ` set (map viewsEntry [1..<66])"
    by (auto simp: indexEntry_def tableEntry_def viewsEntry_def)
  have m: "(DataCacheKey 1, ''t'', []) \<in> set (map (indexEntry :: nat \<Rightarrow> nat DataCacheKey \<times> string \<times> nat list) [1..<66])"
    "(DataCacheKey 1, ''t'', 1) \<in> set (map tableEntry [1..<66])"
    "(DataCacheKey 1, [\<lparr>Name = ''v'', TextDefinition = ''select 1'', CreateViewStatement = ''c''\<rparr>])
       \<in> set (map viewsEntry [1..<66])"
    by (auto simp: indexEntry_def tableEntry_def viewsEntry_def image_iff)
  have "len (makeIfNil (indexes
      (sessionRun U (newSessionCache :: (nat, nat, nat) SessionCache)
         (map indexCall (map indexEntry [1..<66])))))
      = length (map (indexEntry :: nat \<Rightarrow> nat DataCacheKey \<times> string \<times> nat list) [1..<66])"
    by (rule indexCalls_len [OF d(1)]) (simp add: sixty_five)
  then have f1: "maxCachedKeys < len (makeIfNil (indexes
      (sessionRun U (newSessionCache :: (nat, nat, nat) SessionCache)
         (map indexCall (map indexEntry [1..<66])))))"
    by (simp add: maxCachedKeys_def)
  have "len (makeIfNil (tables
      (sessionRun U (newSessionCache :: (nat, nat, nat) SessionCache)
         (map tableCall (map tableEntry [1..<66]))))) = length (map tableEntry [1..<66])"
    by (rule tableCalls_len [OF d(2)]) (simp add: sixty_five)
  then have f2: "maxCachedKeys < len (makeIfNil (tables
      (sessionRun U (newSessionCache :: (nat, nat, nat) SessionCache)
         (map tableCall (map tableEntry [1..<66])))))"
    by (simp add: maxCachedKeys_def)
  have "len (makeIfNil (views
      (sessionRun U (newSessionCache :: (nat, nat, nat) SessionCache)
         (map viewsCall (map viewsEntry [1..<66]))))) = length (map viewsEntry [1..<66])"
    by (rule viewsCalls_len [OF d(3)]) (simp add: sixty_five)
  then have f3: "maxCachedKeys < len (makeIfNil (views
      (sessionRun U (newSessionCache :: (nat, nat, nat) SessionCache)
         (map viewsCall (map viewsEntry [1..<66])))))"
    by (simp add: maxCachedKeys_def)
  note f = f1 f2 f3
  note t = flush_at_66th_key [where U = U and k = "DataCacheKey 66" and n = "''T''" and idxs = "[5]"
      and table = 5 and vs = "[]" and n'' = "''t''"
      and es = "map (indexEntry :: nat \<Rightarrow> nat DataCacheKey \<times> string \<times> nat list) [1..<66]"
      and ts = "map tableEntry [1..<66]" and ws = "map viewsEntry [1..<66]"]
  note t1 = t [where c = "sessionRun U (newSessionCache :: (nat, nat, nat) SessionCache)
         (map indexCall (map indexEntry [1..<66]))"]
  note t2 = t [where c = "sessionRun U (newSessionCache :: (nat, nat, nat) SessionCache)
         (map tableCall (map tableEntry [1..<66]))"]
  note tv = flush_at_66th_key [where U = U and k = "DataCacheKey 66" and vs = "[]" and n'' = "''v''"
      and ws = "map viewsEntry [1..<66]"
      and c = "newSessionCache :: (nat, nat, nat) SessionCache"]
  note t3 = t [where c = "sessionRun U (newSessionCache :: (nat, nat, nat) SessionCache)
         (map viewsCall (map viewsEntry [1..<66]))"]
  from t1 f(1) have c1: "indexes (CacheTableIndexes U
      (sessionRun U (newSessionCache :: (nat, nat, nat) SessionCache)
         (map indexCall (map indexEntry [1..<66])))
      (DataCacheKey 66) ''T'' [5])
     = Some [DataCacheKey 66 \<mapsto> [ToLower U ''T'' \<mapsto> [5]]]"
    by blast
  from t2 f(2) have c2: "tables (CacheTable U
      (sessionRun U (newSessionCache :: (nat, nat, nat) SessionCache)
         (map tableCall (map tableEntry [1..<66])))
      (DataCacheKey 66) ''T'' 5)
     = Some [DataCacheKey 66 \<mapsto> [ToLower U ''T'' \<mapsto> 5]]"
    by blast
  from t3 f(3) have c3: "views (CacheViews U
      (sessionRun U (newSessionCache :: (nat, nat, nat) SessionCache)
         (map viewsCall (map viewsEntry [1..<66])))
      (DataCacheKey 66) [])
     = Some [DataCacheKey 66 \<mapsto> putViews U Map.empty []]"
    by blast
  from t1 d(1) l(1) n(1) m(1) have c4: "GetTableIndexesCache U
     (sessionRun U (newSessionCache :: (nat, nat, nat) SessionCache)
        (map indexCall (map indexEntry [1..<66])))
     (DataCacheKey 1) ''t'' = Some [] \<and>
   GetTableIndexesCache U
     (sessionRun U (newSessionCache :: (nat, nat, nat) SessionCache)
        (map indexCall (map indexEntry [1..<66] @ [(DataCacheKey 66, ''T'', [5])])))
     (DataCacheKey 1) ''t'' = None \<and>
   GetTableIndexesCache U
     (sessionRun U (newSessionCache :: (nat, nat, nat) SessionCache)
        (map indexCall (map indexEntry [1..<66] @ [(DataCacheKey 66, ''T'', [5])])))
     (DataCacheKey 66) ''T'' = Some [5]"
    by blast
  from t1 d(2) l(2) n(2) m(2) have c5: "GetCachedTable U
     (sessionRun U (newSessionCache :: (nat, nat, nat) SessionCache)
        (map tableCall (map tableEntry [1..<66])))
     (DataCacheKey 1) ''t'' = Some 1 \<and>
   GetCachedTable U
     (sessionRun U (newSessionCache :: (nat, nat, nat) SessionCache)
        (map tableCall (map tableEntry [1..<66] @ [(DataCacheKey 66, ''T'', 5)])))
     (DataCacheKey 1) ''t'' = None \<and>
   GetCachedTable U
     (sessionRun U (newSessionCache :: (nat, nat, nat) SessionCache)
        (map tableCall (map tableEntry [1..<66] @ [(DataCacheKey 66, ''T'', 5)])))
     (DataCacheKey 66) ''T'' = Some 5"
    by blast
  from tv d(3) l(3) n(3) m(3) have c6: "ViewsCached
     (sessionRun U (newSessionCache :: (nat, nat, nat) SessionCache)
        (map viewsCall (map viewsEntry [1..<66])))
     (DataCacheKey 1) \<and>
   \<not> ViewsCached
     (sessionRun U (newSessionCache :: (nat, nat, nat) SessionCache)
        (map viewsCall (map viewsEntry [1..<66] @ [(DataCacheKey 66, [])])))
     (DataCacheKey 1) \<and>
   GetCachedViewDefinition U
     (sessionRun U (newSessionCache :: (nat, nat, nat) SessionCache)
        (map viewsCall (map viewsEntry [1..<66] @ [(DataCacheKey 66, [])])))
     (DataCacheKey 1) ''v'' = None \<and>
   ViewsCached
     (sessionRun U (newSessionCache :: (nat, nat, nat) SessionCache)
        (map viewsCall (map viewsEntry [1..<66] @ [(DataCacheKey 66, [])])))
     (DataCacheKey 66)"
    by blast
  from f c1 c2 c3 d l n c4 c5 c6 show "?W U" by blast
qed

text \<open>
  Claim C10. After every sequence of calls on a new cache each bounded outer map holds
  at most 65 keys, and every call keeps the bound (a sequence of calls on a new
  \<^verbatim>\<open>DatabaseCache\<close> does not panic). The bound is reached: 65 calls with distinct keys
  leave 65 keys in the map, so 64 is not a bound.
\<close>

theorem outer_maps_hold_at_most_65:
  fixes new c :: "('h, 'i, 't) SessionCache" and dnew d :: "('h, 'd, 's) DatabaseCache"
  defines "new \<equiv> newSessionCache" and "dnew \<equiv> newDatabaseCache"
  shows
  "sessionBounded 65 (sessionRun U new calls) \<and>
   (sessionBounded 65 c \<longrightarrow> sessionBounded 65 (sessionStep U c call)) \<and>
   (\<exists>d'. databaseRun U dnew dcalls = Inr d' \<and> databaseBounded 65 d') \<and>
   (databaseBounded 65 d \<and> databaseStep U d dcall = Inr d1 \<longrightarrow> databaseBounded 65 d1) \<and>
   (distinct (map fst es) \<and> length es = 65 \<longrightarrow>
      len (makeIfNil (indexes (sessionRun U new (map indexCall es)))) = 65) \<and>
   (distinct (map fst ts) \<and> length ts = 65 \<longrightarrow>
      len (makeIfNil (tables (sessionRun U new (map tableCall ts)))) = 65) \<and>
   (distinct (map fst ws) \<and> length ws = 65 \<longrightarrow>
      len (makeIfNil (views (sessionRun U new (map viewsCall ws)))) = 65) \<and>
   (distinct (map (keyOf U) dbs) \<and> length dbs = 65 \<longrightarrow>
      (\<exists>d'. databaseRun U dnew (map CallCacheRevisionDb dbs) = Inr d' \<and>
            len (makeIfNil (revisionDbs d')) = 65)) \<and>
   (distinct (map fst ss) \<and> length ss = 65 \<longrightarrow>
      (\<exists>d'. databaseRun U dnew (map stateCall ss) = Inr d' \<and>
            len (makeIfNil (initialDbStates d')) = 65))"
proof -
  have sixty_five: "Suc maxCachedKeys = 65"
    by (simp add: maxCachedKeys_def)
  have b1: "sessionBounded 65 (sessionRun U new calls)"
    unfolding new_def sixty_five [symmetric]
    by (rule sessionRun_bounded) (rule newSessionCache_bounded)
  have b2: "sessionBounded 65 c \<longrightarrow> sessionBounded 65 (sessionStep U c call)"
    unfolding sixty_five [symmetric] by (simp add: sessionStep_bounded)
  have b3: "\<exists>d'. databaseRun U dnew dcalls = Inr d' \<and> databaseBounded 65 d'"
  proof -
    have "sessionVars dnew \<noteq> None"
      by (simp add: dnew_def newDatabaseCache_def)
    from databaseRun_allocated [OF this, where calls = dcalls and U = U]
    obtain d' where run: "databaseRun U dnew dcalls = Inr d'" by blast
    have "databaseBounded (Suc maxCachedKeys) dnew"
      unfolding dnew_def by (rule newDatabaseCache_bounded)
    from databaseRun_bounded [OF this run] run show ?thesis
      unfolding sixty_five by blast
  qed
  have b4: "databaseBounded 65 d \<and> databaseStep U d dcall = Inr d1 \<longrightarrow> databaseBounded 65 d1"
    unfolding sixty_five [symmetric] using databaseStep_bounded [where c = d and call = dcall and c' = d1 and U = U] by blast
  have t1: "len (makeIfNil (indexes (sessionRun U new (map indexCall es)))) = 65"
    if "distinct (map fst es)" "length es = 65"
    unfolding new_def using that by (subst indexCalls_len) (simp_all add: sixty_five)
  have t2: "len (makeIfNil (tables (sessionRun U new (map tableCall ts)))) = 65"
    if "distinct (map fst ts)" "length ts = 65"
    unfolding new_def using that by (subst tableCalls_len) (simp_all add: sixty_five)
  have t3: "len (makeIfNil (views (sessionRun U new (map viewsCall ws)))) = 65"
    if "distinct (map fst ws)" "length ws = 65"
    unfolding new_def using that by (subst viewsCalls_len) (simp_all add: sixty_five)
  have t4: "\<exists>d'. databaseRun U dnew (map CallCacheRevisionDb dbs) = Inr d' \<and>
            len (makeIfNil (revisionDbs d')) = 65"
    if "distinct (map (keyOf U) dbs)" "length dbs = 65"
  proof -
    from that have "length dbs \<le> Suc maxCachedKeys" by (simp add: sixty_five)
    from revisionCalls_keys [OF that(1) this]
    obtain d' where "databaseRun U dnew (map CallCacheRevisionDb dbs) = Inr d'"
      and "dom (makeIfNil (revisionDbs d')) = keyOf U ` set dbs"
      unfolding dnew_def by blast
    with len_keys_image [OF that(1) this(2)] that(2) show ?thesis by simp
  qed
  have t5: "\<exists>d'. databaseRun U dnew (map stateCall ss) = Inr d' \<and>
            len (makeIfNil (initialDbStates d')) = 65"
    if "distinct (map fst ss)" "length ss = 65"
  proof -
    from that have "length ss \<le> Suc maxCachedKeys" by (simp add: sixty_five)
    from stateCalls_keys [OF that(1) this]
    obtain d' where "databaseRun U dnew (map stateCall ss) = Inr d'"
      and "dom (makeIfNil (initialDbStates d')) = fst ` set ss"
      unfolding dnew_def by blast
    with len_keys [OF that(1) this(2)] that(2) show ?thesis by simp
  qed
  from b1 b2 b3 b4 t1 t2 t3 t4 t5 show ?thesis by blast
qed

theorem outer_maps_hold_at_most_65_witness:
  "\<forall>U.
   sessionBounded 65
     (sessionRun U (newSessionCache :: (nat, nat, nat) SessionCache)
        [CallCacheTable (DataCacheKey 1) ''t'' 1, CallClearTableCache,
         CallCacheViews (DataCacheKey 2) []]) \<and>
   (\<exists>d'. databaseRun U (newDatabaseCache :: (nat, unit, nat) DatabaseCache)
            [CallCacheRevisionDb (dbEntry 1), CallClear,
             CallCacheInitialDbState (DataCacheKey 1) ''db/main'' 1] = Inr d' \<and>
         databaseBounded 65 d') \<and>
   sessionBounded 65 (newSessionCache :: (nat, nat, nat) SessionCache) \<and>
   sessionBounded 65
     (sessionStep U (newSessionCache :: (nat, nat, nat) SessionCache)
        (CallCacheTable (DataCacheKey 1) ''t'' 1)) \<and>
   databaseBounded 65 (newDatabaseCache :: (nat, unit, nat) DatabaseCache) \<and>
   databaseStep U (newDatabaseCache :: (nat, unit, nat) DatabaseCache) CallClear
     = Inr (Clear newDatabaseCache) \<and>
   databaseBounded 65 (Clear (newDatabaseCache :: (nat, unit, nat) DatabaseCache)) \<and>
   distinct (map fst (map (indexEntry :: nat \<Rightarrow> nat DataCacheKey \<times> string \<times> nat list) [1..<66])) \<and>
   length (map (indexEntry :: nat \<Rightarrow> nat DataCacheKey \<times> string \<times> nat list) [1..<66]) = 65 \<and>
   len (makeIfNil (indexes (sessionRun U (newSessionCache :: (nat, nat, nat) SessionCache)
          (map indexCall (map indexEntry [1..<66]))))) = 65 \<and>
   distinct (map fst (map tableEntry [1..<66])) \<and>
   length (map tableEntry [1..<66]) = 65 \<and>
   len (makeIfNil (tables (sessionRun U (newSessionCache :: (nat, nat, nat) SessionCache)
          (map tableCall (map tableEntry [1..<66]))))) = 65 \<and>
   distinct (map fst (map viewsEntry [1..<66])) \<and>
   length (map viewsEntry [1..<66]) = 65 \<and>
   len (makeIfNil (views (sessionRun U (newSessionCache :: (nat, nat, nat) SessionCache)
          (map viewsCall (map viewsEntry [1..<66]))))) = 65 \<and>
   distinct (map (keyOf U) (map dbEntry [1..<66])) \<and>
   length (map dbEntry [1..<66]) = 65 \<and>
   (\<exists>d'. databaseRun U (newDatabaseCache :: (nat, unit, nat) DatabaseCache)
            (map CallCacheRevisionDb (map dbEntry [1..<66])) = Inr d' \<and>
         len (makeIfNil (revisionDbs d')) = 65) \<and>
   distinct (map fst (map stateEntry [1..<66])) \<and>
   length (map stateEntry [1..<66]) = 65 \<and>
   (\<exists>d'. databaseRun U (newDatabaseCache :: (nat, unit, nat) DatabaseCache)
            (map stateCall (map stateEntry [1..<66])) = Inr d' \<and>
         len (makeIfNil (initialDbStates d')) = 65)"
  (is "\<forall>U. ?W U")
proof (rule allI)
  fix U :: unicodeLower
  have h1: "sessionBounded 65 (newSessionCache :: (nat, nat, nat) SessionCache)"
    by (simp add: sessionBounded_def holdsAtMost_def newSessionCache_def makeIfNil_def len_def)
  have h2: "databaseBounded 65 (newDatabaseCache :: (nat, unit, nat) DatabaseCache)"
    by (simp add: databaseBounded_def holdsAtMost_def newDatabaseCache_def makeIfNil_def len_def)
  have h3: "databaseStep U (newDatabaseCache :: (nat, unit, nat) DatabaseCache) CallClear
     = Inr (Clear newDatabaseCache)"
    by simp
  have h4: "distinct (map fst (map (indexEntry :: nat \<Rightarrow> nat DataCacheKey \<times> string \<times> nat list) [1..<66]))"
    "distinct (map fst (map tableEntry [1..<66]))"
    "distinct (map fst (map viewsEntry [1..<66]))"
    "distinct (map fst (map stateEntry [1..<66]))"
    by (simp_all only: keys_indexEntry keys_tableEntry keys_viewsEntry keys_stateEntry
        distinct_keys distinct_upt)
  have h5: "distinct (map (keyOf U) (map dbEntry [1..<66]))"
    by (simp only: distinct_dbEntry distinct_upt)
  have h6: "length (map (indexEntry :: nat \<Rightarrow> nat DataCacheKey \<times> string \<times> nat list) [1..<66]) = 65"
    "length (map tableEntry [1..<66]) = 65"
    "length (map viewsEntry [1..<66]) = 65"
    "length (map dbEntry [1..<66]) = 65"
    "length (map stateEntry [1..<66]) = 65"
    by simp_all
  from h1 h2 h3 h4 h5 h6
    outer_maps_hold_at_most_65 [where U = U and
      calls = "[CallCacheTable (DataCacheKey 1) ''t'' 1, CallClearTableCache,
         CallCacheViews (DataCacheKey 2) []]"
      and c = "newSessionCache :: (nat, nat, nat) SessionCache"
      and call = "CallCacheTable (DataCacheKey 1) ''t'' 1"
      and d = "newDatabaseCache :: (nat, unit, nat) DatabaseCache"
      and dcalls = "[CallCacheRevisionDb (dbEntry 1), CallClear,
             CallCacheInitialDbState (DataCacheKey 1) ''db/main'' 1]"
      and dcall = CallClear and ?d1.0 = "Clear newDatabaseCache"
      and es = "map (indexEntry :: nat \<Rightarrow> nat DataCacheKey \<times> string \<times> nat list) [1..<66]"
      and ts = "map tableEntry [1..<66]"
      and ws = "map viewsEntry [1..<66]"
      and dbs = "map dbEntry [1..<66]"
      and ss = "map stateEntry [1..<66]"]
  show "?W U" by blast
qed

end
